theory Spec2Isabelle
  imports Complex_Main "HOL-Library.Word"
begin

section \<open>Data model of the distributed dual-tree task queue\<close>

text \<open>
  The class \<^verbatim>\<open>DistributedDualtreeTaskQueue\<close> is a template over a table type and a
  priority-queue type.  The tree nodes, tables, sub-tables and the table exchange are
  collaborators that the class only reaches through pointers.  A pointer is an address
  (a natural number) and address \<open>0\<close> is the null pointer: following it is a fault.
  Subscripting a vector outside its bounds is a fault as well.  Faults are values, so
  that every operation of the model is total.
\<close>

datatype fault = OutOfRange | NullPointer

definition NULL :: nat where [simp]:
  "NULL = 0"

type_synonym ulong = "64 word"

text \<open>
  \<^verbatim>\<open>TaskType\<close>: the value built in \<^verbatim>\<open>PushTask_\<close> from the query subtree, the reference
  table, the reference node, the cache id and the priority.
\<close>

record task =
  query_subtree :: nat
  reference_table :: nat
  reference_start_node :: nat
  cache_id :: int
  priority :: real

text \<open>
  The read-only collaborators, taken as parameters: the accessors of a tree node
  (\<^verbatim>\<open>left()\<close>, \<^verbatim>\<open>right()\<close>, \<^verbatim>\<open>is_leaf()\<close>, \<^verbatim>\<open>begin()\<close>, \<^verbatim>\<open>count()\<close>), the midpoint of
  \<^verbatim>\<open>bound().RangeDistanceSq(metric, bound())\<close> for a pair of nodes, the lookups of the
  table exchange, the default-constructed task, and the partitioner of the local query
  tree, which receives the number of threads and the vector it fills.
\<close>

record env =
  node_left :: "nat \<Rightarrow> nat"
  node_right :: "nat \<Rightarrow> nat"
  node_is_leaf :: "nat \<Rightarrow> bool"
  node_begin :: "nat \<Rightarrow> int"
  node_count :: "nat \<Rightarrow> int"
  range_distance_sq_mid :: "nat \<Rightarrow> nat \<Rightarrow> real"
  FindSubTable :: "int \<Rightarrow> nat option"
  subtable_table :: "nat \<Rightarrow> nat"
  table_get_tree :: "nat \<Rightarrow> nat"
  table_rank :: "nat \<Rightarrow> int"
  local_table :: nat
  FindByBeginCount :: "int \<Rightarrow> int \<Rightarrow> nat"
  default_task :: task
  get_frontier_nodes_bounded_by_number :: "int \<Rightarrow> nat list \<Rightarrow> nat list"

text \<open>
  The table exchange is mutated only through calls; its state is the trace of the calls
  the task queue has made to it.
\<close>

datatype exchange_call =
  ExchangeInit
  | LockCache int int
  | ReleaseCache int int
  | ExchangePushCompleted ulong

text \<open>
  Modelled from the spec: the class \<^verbatim>\<open>DisjointIntIntervals\<close> (header
  \<^verbatim>\<open>core/parallel/disjoint_int_intervals.h\<close>) is not among the sources.  The spec's
  Interval Set is a set of half-open integer intervals over a (rank, lo, hi) triple whose
  insertion returns true on the first insertion of an interval and false if the interval
  is already covered or subsumed.
\<close>

type_synonym interval = "int \<times> int \<times> int"

type_synonym interval_set = "interval list"

definition covered :: "interval \<Rightarrow> interval_set \<Rightarrow> bool" where
  "covered x w =
     (\<exists>y \<in> set w. fst y = fst x \<and> fst (snd y) \<le> fst (snd x) \<and> snd (snd x) \<le> snd (snd y))"

definition Insert :: "interval \<Rightarrow> interval_set \<Rightarrow> bool \<times> interval_set" where
  "Insert x w = (if covered x w then (False, w) else (True, w @ [x]))"

text \<open>
  Modelled from the spec: the priority queue type is a template parameter.  The spec's
  Task Priority Queue is a max-heap keyed by the priority; it is kept here as the list of
  its tasks in the order in which \<^verbatim>\<open>top()\<close> and \<^verbatim>\<open>pop()\<close> deliver them.
\<close>

fun heap_push :: "task \<Rightarrow> task list \<Rightarrow> task list" where
  "heap_push t [] = [t]"
| "heap_push t (x # xs) =
     (if priority x < priority t then t # x # xs else x # heap_push t xs)"

text \<open>The fields of the class, in the order of their declaration.\<close>

record dispatcher =
  query_subtrees :: "nat list"
  assigned_work :: "interval_set list"
  remaining_work_for_query_subtrees :: "ulong list"
  query_subtree_locks :: "bool list"
  tasks :: "task list list"
  split_subtree_after_unlocking :: bool
  table_exchange :: "exchange_call list"
  num_remaining_tasks :: int
  remaining_global_computation :: ulong
  remaining_local_computation :: ulong

text \<open>A subscript of type \<^verbatim>\<open>int\<close> is within the bounds of a vector.\<close>

definition in_range :: "'a list \<Rightarrow> int \<Rightarrow> bool" where
  "in_range xs i = (0 \<le> i \<and> i < int (length xs))"

text \<open>Sequencing of operations that may fault.\<close>

definition and_then :: "fault + 'a \<Rightarrow> ('a \<Rightarrow> fault + 'b) \<Rightarrow> fault + 'b" where
  "and_then r f = (case r of Inl e \<Rightarrow> Inl e | Inr x \<Rightarrow> f x)"

section \<open>Operations\<close>

text \<open>The constructor.\<close>

definition constructor :: dispatcher where
  "constructor =
     \<lparr> query_subtrees = [], assigned_work = [], remaining_work_for_query_subtrees = [],
       query_subtree_locks = [], tasks = [], split_subtree_after_unlocking = False,
       table_exchange = [], num_remaining_tasks = 0,
       remaining_global_computation = 0, remaining_local_computation = 0 \<rparr>"

text \<open>
  \<^verbatim>\<open>PushTask_\<close>: reads the bounds of the query subtree at \<open>push_index\<close> and of the
  reference node, builds the task with the negated midpoint as its priority, pushes it on
  the heap of \<open>push_index\<close> and increments the number of tasks.
\<close>

definition make_task :: "env \<Rightarrow> nat \<Rightarrow> nat \<times> nat \<times> int \<Rightarrow> task" where
  "make_task e query_node reference_table_node_pair =
     \<lparr> query_subtree = query_node,
       reference_table = fst reference_table_node_pair,
       reference_start_node = fst (snd reference_table_node_pair),
       cache_id = snd (snd reference_table_node_pair),
       priority = - range_distance_sq_mid e query_node (fst (snd reference_table_node_pair)) \<rparr>"

definition PushTask :: "env \<Rightarrow> int \<Rightarrow> nat \<times> nat \<times> int \<Rightarrow> dispatcher \<Rightarrow> fault + dispatcher" where
  "PushTask e push_index reference_table_node_pair s =
     (if \<not> in_range (query_subtrees s) push_index then Inl OutOfRange
      else if query_subtrees s ! nat push_index = NULL then Inl NullPointer
      else if fst (snd reference_table_node_pair) = NULL then Inl NullPointer
      else if \<not> in_range (tasks s) push_index then Inl OutOfRange
      else
        let new_task = make_task e (query_subtrees s ! nat push_index) reference_table_node_pair
        in Inr (s\<lparr> tasks := (tasks s)[nat push_index := heap_push new_task (tasks s ! nat push_index)],
                   num_remaining_tasks := num_remaining_tasks s + 1 \<rparr>))"

text \<open>
  The targeted \<^verbatim>\<open>DequeueTask(probe_index, task_out, lock_query_subtree_in)\<close>.  The
  out-parameter is passed in and returned.
\<close>

definition DequeueTask_at ::
  "int \<Rightarrow> task \<times> int \<Rightarrow> bool \<Rightarrow> dispatcher \<Rightarrow> fault + ((task \<times> int) \<times> dispatcher)" where
  "DequeueTask_at probe_index task_out lock_query_subtree_in s =
     (if \<not> in_range (tasks s) probe_index then Inl OutOfRange
      else if length (tasks s ! nat probe_index) > 0 then
        (if \<not> in_range (query_subtree_locks s) probe_index then Inl OutOfRange
         else if \<not> query_subtree_locks s ! nat probe_index then
           Inr ((hd (tasks s ! nat probe_index), probe_index),
                s\<lparr> tasks := (tasks s)[nat probe_index := tl (tasks s ! nat probe_index)],
                   query_subtree_locks := (query_subtree_locks s)[nat probe_index := lock_query_subtree_in],
                   num_remaining_tasks := num_remaining_tasks s - 1 \<rparr>)
         else Inr (task_out, s))
      else Inr (task_out, s))"

text \<open>
  The retirement of slot \<open>i\<close> inside the untargeted dequeue: the last entry of each of
  the five vectors is copied into slot \<open>i\<close> and the vector loses its last entry.
\<close>

definition swap_pop :: "nat \<Rightarrow> 'a list \<Rightarrow> 'a list" where
  "swap_pop i xs = butlast (xs[i := last xs])"

definition retire :: "nat \<Rightarrow> dispatcher \<Rightarrow> dispatcher" where
  "retire i s =
     s\<lparr> query_subtrees := swap_pop i (query_subtrees s),
        assigned_work := swap_pop i (assigned_work s),
        remaining_work_for_query_subtrees := swap_pop i (remaining_work_for_query_subtrees s),
        query_subtree_locks := swap_pop i (query_subtree_locks s),
        tasks := swap_pop i (tasks s) \<rparr>"

text \<open>
  The untargeted \<^verbatim>\<open>DequeueTask(task_out, lock_query_subtree_in)\<close>: the loop over
  \<open>probe_index\<close>, from the value \<open>i\<close> of the index on.  After a retirement the index is
  decremented and then incremented by the loop, so slot \<open>i\<close> is examined again.
\<close>

function DequeueTask_from ::
  "nat \<Rightarrow> task \<times> int \<Rightarrow> bool \<Rightarrow> dispatcher \<Rightarrow> fault + ((task \<times> int) \<times> dispatcher)" where
  "DequeueTask_from i task_out lock_query_subtree_in s =
     (if i < length (tasks s) then
        (if length (tasks s ! i) > 0 then
           (if \<not> i < length (query_subtree_locks s) then Inl OutOfRange
            else if \<not> query_subtree_locks s ! i then
              Inr ((hd (tasks s ! i), int i),
                   s\<lparr> tasks := (tasks s)[i := tl (tasks s ! i)],
                      query_subtree_locks := (query_subtree_locks s)[i := lock_query_subtree_in],
                      num_remaining_tasks := num_remaining_tasks s - 1 \<rparr>)
            else DequeueTask_from (i + 1) task_out lock_query_subtree_in s)
         else if \<not> i < length (remaining_work_for_query_subtrees s) then Inl OutOfRange
         else if remaining_work_for_query_subtrees s ! i = 0 then
           (if \<not> (i < length (assigned_work s) \<and> i < length (query_subtrees s)
                   \<and> i < length (query_subtree_locks s)) then Inl OutOfRange
            else DequeueTask_from i task_out lock_query_subtree_in (retire i s))
         else DequeueTask_from (i + 1) task_out lock_query_subtree_in s)
      else Inr (task_out, s))"
  by pat_completeness auto
termination
  by (relation "measure (\<lambda>(i, task_out, l, s). length (tasks s) - i)")
     (auto simp: retire_def swap_pop_def)

declare DequeueTask_from.simps [simp del]

definition DequeueTask :: "task \<times> int \<Rightarrow> bool \<Rightarrow> dispatcher \<Rightarrow> fault + ((task \<times> int) \<times> dispatcher)" where
  "DequeueTask task_out lock_query_subtree_in s = DequeueTask_from 0 task_out lock_query_subtree_in s"


text \<open>
  \<^verbatim>\<open>FindQuerySubtreeIndex_\<close>: the linear scan for the first subtree whose \<^verbatim>\<open>begin()\<close> and
  \<^verbatim>\<open>count()\<close> are the second and third components of the id (the test \<open>has_id\<close>);
  \<open>-1\<close> when there is none.
\<close>

definition has_id :: "env \<Rightarrow> int \<times> int \<times> int \<Rightarrow> nat \<Rightarrow> bool" where
  "has_id e query_node_id node =
     (fst (snd query_node_id) = node_begin e node \<and> snd (snd query_node_id) = node_count e node)"

function FindQuerySubtreeIndex_from :: "env \<Rightarrow> int \<times> int \<times> int \<Rightarrow> nat \<Rightarrow> dispatcher \<Rightarrow> fault + int" where
  "FindQuerySubtreeIndex_from e query_node_id i s =
     (if i < length (query_subtrees s) then
        (if query_subtrees s ! i = NULL then Inl NullPointer
         else if has_id e query_node_id (query_subtrees s ! i) then Inr (int i)
         else FindQuerySubtreeIndex_from e query_node_id (i + 1) s)
      else Inr (- 1))"
  by pat_completeness auto
termination
  by (relation "measure (\<lambda>(e, q, i, s). length (query_subtrees s) - i)") auto

declare FindQuerySubtreeIndex_from.simps [simp del]

definition FindQuerySubtreeIndex :: "env \<Rightarrow> int \<times> int \<times> int \<Rightarrow> dispatcher \<Rightarrow> fault + int" where
  "FindQuerySubtreeIndex e query_node_id s = FindQuerySubtreeIndex_from e query_node_id 0 s"

text \<open>\<^verbatim>\<open>UnlockQuerySubtree\<close>.\<close>

definition UnlockQuerySubtree :: "env \<Rightarrow> int \<times> int \<times> int \<Rightarrow> dispatcher \<Rightarrow> fault + dispatcher" where
  "UnlockQuerySubtree e query_subtree_id s =
     (case FindQuerySubtreeIndex e query_subtree_id s of
        Inl f \<Rightarrow> Inl f
      | Inr subtree_index \<Rightarrow>
          if \<not> in_range (query_subtree_locks s) subtree_index then Inl OutOfRange
          else Inr (s\<lparr> query_subtree_locks := (query_subtree_locks s)[nat subtree_index := False] \<rparr>))"

text \<open>
  The two forms of \<^verbatim>\<open>push_completed_computation\<close>.  The counters are of type
  \<^verbatim>\<open>unsigned long int\<close>; the subtraction is that of 64-bit words.
\<close>

definition subtract_quantity :: "ulong \<Rightarrow> dispatcher \<Rightarrow> dispatcher" where
  "subtract_quantity quantity_in s =
     s\<lparr> remaining_global_computation := remaining_global_computation s - quantity_in,
        remaining_local_computation := remaining_local_computation s - quantity_in,
        table_exchange := table_exchange s @ [ExchangePushCompleted quantity_in] \<rparr>"

definition push_completed_computation_for ::
  "env \<Rightarrow> int \<times> int \<times> int \<Rightarrow> ulong \<Rightarrow> ulong \<Rightarrow> dispatcher \<Rightarrow> fault + dispatcher" where
  "push_completed_computation_for e query_node_id reference_count_in quantity_in s =
     (let s1 = subtract_quantity quantity_in s in
      case FindQuerySubtreeIndex e query_node_id s1 of
        Inl f \<Rightarrow> Inl f
      | Inr found_index \<Rightarrow>
          if \<not> in_range (remaining_work_for_query_subtrees s1) found_index then Inl OutOfRange
          else Inr (s1\<lparr> remaining_work_for_query_subtrees :=
                 (remaining_work_for_query_subtrees s1)
                   [nat found_index :=
                      remaining_work_for_query_subtrees s1 ! nat found_index - reference_count_in] \<rparr>))"

function subtract_reference_count_from :: "ulong \<Rightarrow> nat \<Rightarrow> dispatcher \<Rightarrow> fault + dispatcher" where
  "subtract_reference_count_from reference_count_in i s =
     (if i < length (query_subtrees s) then
        (if \<not> i < length (remaining_work_for_query_subtrees s) then Inl OutOfRange
         else subtract_reference_count_from reference_count_in (i + 1)
                (s\<lparr> remaining_work_for_query_subtrees :=
                      (remaining_work_for_query_subtrees s)
                        [i := remaining_work_for_query_subtrees s ! i - reference_count_in] \<rparr>))
      else Inr s)"
  by pat_completeness auto
termination
  by (relation "measure (\<lambda>(r, i, s). length (query_subtrees s) - i)") auto

declare subtract_reference_count_from.simps [simp del]

definition push_completed_computation :: "ulong \<Rightarrow> ulong \<Rightarrow> dispatcher \<Rightarrow> fault + dispatcher" where
  "push_completed_computation reference_count_in quantity_in s =
     subtract_reference_count_from reference_count_in 0 (subtract_quantity quantity_in s)"

text \<open>
  \<^verbatim>\<open>Init\<close>.  The arguments stand for what the method reads from the communicator and the
  two distributed tables: the number of processes, the number of query and of reference
  entries of each process, and the number of entries of the local query table.
\<close>

definition total_entries :: "int \<Rightarrow> (nat \<Rightarrow> int) \<Rightarrow> ulong" where
  "total_entries world_size local_n_entries =
     fold (\<lambda>i total. total + word_of_int (local_n_entries i)) [0 ..< nat world_size] 0"

definition Init ::
  "env \<Rightarrow> int \<Rightarrow> (nat \<Rightarrow> int) \<Rightarrow> (nat \<Rightarrow> int) \<Rightarrow> int \<Rightarrow> int \<Rightarrow> dispatcher \<Rightarrow> dispatcher" where
  "Init e world_size query_local_n_entries reference_local_n_entries n_entries num_threads_in s =
     (let frontier = get_frontier_nodes_bounded_by_number e num_threads_in (query_subtrees s);
          total_num_query_points = total_entries world_size query_local_n_entries;
          total_num_reference_points = total_entries world_size reference_local_n_entries
      in s\<lparr> query_subtrees := frontier,
            query_subtree_locks := replicate (length frontier) False,
            tasks := replicate (length frontier) [],
            split_subtree_after_unlocking := False,
            table_exchange := table_exchange s @ [ExchangeInit],
            remaining_global_computation := total_num_query_points * total_num_reference_points,
            remaining_local_computation := word_of_int n_entries * total_num_reference_points,
            assigned_work := replicate (length frontier) [],
            remaining_work_for_query_subtrees :=
              replicate (length frontier) total_num_reference_points \<rparr>)"


text \<open>
  \<^verbatim>\<open>GenerateTasks\<close>: the inner loop over the query subtrees for one received sub-table,
  from index \<open>j\<close> on, then the body of the outer loop, then the outer loop.
\<close>

function GenerateTasks_inner ::
  "env \<Rightarrow> nat \<times> nat \<times> int \<Rightarrow> interval \<Rightarrow> nat \<Rightarrow> dispatcher \<Rightarrow> fault + dispatcher" where
  "GenerateTasks_inner e reference_table_node_pair iv j s =
     (if j < length (query_subtrees s) then
        (if \<not> j < length (assigned_work s) then Inl OutOfRange
         else
           let r = Insert iv (assigned_work s ! j);
               s1 = s\<lparr> assigned_work := (assigned_work s)[j := snd r] \<rparr>
           in if fst r then
                (case PushTask e (int j) reference_table_node_pair s1 of
                   Inl f \<Rightarrow> Inl f
                 | Inr s2 \<Rightarrow>
                     GenerateTasks_inner e reference_table_node_pair iv (j + 1)
                       (s2\<lparr> table_exchange :=
                              table_exchange s2 @ [LockCache (snd (snd reference_table_node_pair)) 1] \<rparr>))
              else GenerateTasks_inner e reference_table_node_pair iv (j + 1) s1)
      else Inr s)"
  by pat_completeness auto
termination
  by (relation "measure (\<lambda>(e, p, iv, j, s). length (query_subtrees s) - j)")
     (auto simp: PushTask_def Let_def split: if_splits)

declare GenerateTasks_inner.simps [simp del]

definition GenerateTasks_one :: "env \<Rightarrow> int \<times> int \<times> int \<times> int \<Rightarrow> dispatcher \<Rightarrow> fault + dispatcher" where
  "GenerateTasks_one e received_subtable_id s =
     (let reference_begin = fst (snd received_subtable_id);
          reference_count = fst (snd (snd received_subtable_id));
          cache_id = snd (snd (snd received_subtable_id));
          frontier_reference_subtable = FindSubTable e cache_id;
          frontier_reference_table =
            (case frontier_reference_subtable of
               Some st \<Rightarrow> subtable_table e st
             | None \<Rightarrow> local_table e);
          reference_starting_node =
            (case frontier_reference_subtable of
               Some st \<Rightarrow> table_get_tree e (subtable_table e st)
             | None \<Rightarrow> FindByBeginCount e reference_begin reference_count)
      in GenerateTasks_inner e (frontier_reference_table, reference_starting_node, cache_id)
           (table_rank e frontier_reference_table, reference_begin, reference_begin + reference_count)
           0 s)"

fun GenerateTasks :: "env \<Rightarrow> (int \<times> int \<times> int \<times> int) list \<Rightarrow> dispatcher \<Rightarrow> fault + dispatcher" where
  "GenerateTasks e [] s = Inr s"
| "GenerateTasks e (d # ds) s =
     (case GenerateTasks_one e d s of
        Inl f \<Rightarrow> Inl f
      | Inr s1 \<Rightarrow> GenerateTasks e ds s1)"

text \<open>
  \<^verbatim>\<open>split_subtree_\<close>.  Its first loop drains the heap of \<open>subtree_index\<close> through the
  targeted dequeue, which leaves a locked heap as it is: that loop need not end, so it is
  a partial function and \<open>None\<close> is the run that never returns.
\<close>

partial_function (option) drain ::
  "env \<Rightarrow> int \<Rightarrow> task list \<Rightarrow> dispatcher \<Rightarrow> (fault + (task list \<times> dispatcher)) option" where
  "drain e subtree_index prev_tasks s =
     (if \<not> in_range (tasks s) subtree_index then Some (Inl OutOfRange)
      else if length (tasks s ! nat subtree_index) > 0 then
        (case DequeueTask_at subtree_index (default_task e, 0) False s of
           Inl f \<Rightarrow> Some (Inl f)
         | Inr r \<Rightarrow> drain e subtree_index (prev_tasks @ [fst (fst r)]) (snd r))
      else Some (Inr (prev_tasks, s)))"

text \<open>The second loop of \<^verbatim>\<open>split_subtree_\<close>, over the drained tasks.\<close>

fun reemit :: "env \<Rightarrow> nat \<Rightarrow> int \<Rightarrow> task list \<Rightarrow> dispatcher \<Rightarrow> fault + dispatcher" where
  "reemit e prev_qnode subtree_index [] s = Inr s"
| "reemit e prev_qnode subtree_index (t # ts) s =
     (if reference_start_node t = NULL then Inl NullPointer
      else if \<not> node_is_leaf e (reference_start_node t) \<and> prev_qnode = reference_start_node t then
        (let reference_table_left_node_pair =
               (reference_table t, node_left e (reference_start_node t), cache_id t);
             reference_table_right_node_pair =
               (reference_table t, node_right e (reference_start_node t), cache_id t)
         in and_then (PushTask e subtree_index reference_table_left_node_pair s) (\<lambda>s1.
            and_then (PushTask e subtree_index reference_table_right_node_pair s1) (\<lambda>s2.
            and_then (PushTask e (int (length (query_subtrees s2)) - 1)
                        reference_table_left_node_pair s2) (\<lambda>s3.
            and_then (PushTask e (int (length (query_subtrees s3)) - 1)
                        reference_table_right_node_pair s3) (\<lambda>s4.
            reemit e prev_qnode subtree_index ts
              (s4\<lparr> table_exchange := table_exchange s4 @ [LockCache (cache_id t) 3] \<rparr>))))))
      else
        (let reference_table_node_pair =
               (reference_table t, reference_start_node t, cache_id t)
         in and_then (PushTask e subtree_index reference_table_node_pair s) (\<lambda>s1.
            and_then (PushTask e (int (length (query_subtrees s1)) - 1)
                        reference_table_node_pair s1) (\<lambda>s2.
            reemit e prev_qnode subtree_index ts
              (s2\<lparr> table_exchange := table_exchange s2 @ [LockCache (cache_id t) 1] \<rparr>)))))"

definition split_subtree :: "env \<Rightarrow> int \<Rightarrow> dispatcher \<Rightarrow> (fault + dispatcher) option" where
  "split_subtree e subtree_index s =
     (if \<not> in_range (query_subtrees s) subtree_index then Some (Inl OutOfRange)
      else
        let prev_qnode = query_subtrees s ! nat subtree_index
        in if prev_qnode = NULL then Some (Inl NullPointer)
           else
             let left = node_left e prev_qnode;
                 right = node_right e prev_qnode;
                 s1 = s\<lparr> query_subtrees := (query_subtrees s)[nat subtree_index := left] @ [right],
                         query_subtree_locks := query_subtree_locks s @ [False] \<rparr>
             in case drain e subtree_index [] s1 of
                  None \<Rightarrow> None
                | Some (Inl f) \<Rightarrow> Some (Inl f)
                | Some (Inr r) \<Rightarrow>
                    let prev_tasks = fst r; s2 = snd r
                    in if \<not> in_range (assigned_work s2) subtree_index then Some (Inl OutOfRange)
                       else if \<not> in_range (remaining_work_for_query_subtrees s2) subtree_index
                       then Some (Inl OutOfRange)
                       else
                         Some (reemit e prev_qnode subtree_index prev_tasks
                           (s2\<lparr> tasks := tasks s2 @ [[]],
                                assigned_work :=
                                  assigned_work s2 @ [assigned_work s2 ! nat subtree_index],
                                remaining_work_for_query_subtrees :=
                                  remaining_work_for_query_subtrees s2
                                  @ [remaining_work_for_query_subtrees s2 ! nat subtree_index] \<rparr>)))"

text \<open>
  \<^verbatim>\<open>RedistributeAmongCores\<close>: the loop that looks for the subtree to split, carrying
  \<open>split_index_query_size\<close> and \<open>split_index\<close>, then the method.
\<close>

function find_split_index :: "env \<Rightarrow> nat \<Rightarrow> int \<times> int \<Rightarrow> dispatcher \<Rightarrow> fault + (int \<times> int)" where
  "find_split_index e i acc s =
     (if i < length (query_subtrees s) then
        (if \<not> i < length (query_subtree_locks s) then Inl OutOfRange
         else if query_subtree_locks s ! i then find_split_index e (i + 1) acc s
         else if query_subtrees s ! i = NULL then Inl NullPointer
         else if node_is_leaf e (query_subtrees s ! i) then find_split_index e (i + 1) acc s
         else if \<not> i < length (tasks s) then Inl OutOfRange
         else if \<not> length (tasks s ! i) > 0 then find_split_index e (i + 1) acc s
         else if fst acc < node_count e (query_subtrees s ! i)
         then find_split_index e (i + 1) (node_count e (query_subtrees s ! i), int i) s
         else find_split_index e (i + 1) acc s)
      else Inr acc)"
  by pat_completeness auto
termination
  by (relation "measure (\<lambda>(e, i, acc, s). length (query_subtrees s) - i)") auto

declare find_split_index.simps [simp del]

definition RedistributeAmongCores :: "env \<Rightarrow> dispatcher \<Rightarrow> (fault + dispatcher) option" where
  "RedistributeAmongCores e s =
     (if split_subtree_after_unlocking s then
        (case find_split_index e 0 (0, - 1) s of
           Inl f \<Rightarrow> Some (Inl f)
         | Inr acc \<Rightarrow>
             if snd acc \<ge> 0 then
               (case split_subtree e (snd acc) s of
                  None \<Rightarrow> None
                | Some (Inl f) \<Rightarrow> Some (Inl f)
                | Some (Inr s1) \<Rightarrow> Some (Inr (s1\<lparr> split_subtree_after_unlocking := False \<rparr>)))
             else Some (Inr (s\<lparr> split_subtree_after_unlocking := False \<rparr>)))
      else Some (Inr s))"


section \<open>Invariants and conditions of the slots\<close>

text \<open>
  The value of the subtraction of two \<^verbatim>\<open>unsigned long int\<close>, on the numbers the words
  stand for.
\<close>

definition ulong_minus :: "nat \<Rightarrow> nat \<Rightarrow> nat" where
  "ulong_minus a b = (if b \<le> a then a - b else a + 2 ^ 64 - b)"

text \<open>The five parallel vectors have one length.\<close>

definition aligned :: "dispatcher \<Rightarrow> bool" where
  "aligned s =
     (length (assigned_work s) = length (query_subtrees s)
      \<and> length (remaining_work_for_query_subtrees s) = length (query_subtrees s)
      \<and> length (query_subtree_locks s) = length (query_subtrees s)
      \<and> length (tasks s) = length (query_subtrees s))"

text \<open>The slots: the entries of the five vectors at one index, taken together.\<close>

definition slots ::
  "dispatcher \<Rightarrow> (nat \<times> interval_set \<times> ulong \<times> bool \<times> task list) list" where
  "slots s =
     zip (query_subtrees s) (zip (assigned_work s)
       (zip (remaining_work_for_query_subtrees s) (zip (query_subtree_locks s) (tasks s))))"

text \<open>The counter of tasks is the number of tasks in the heaps.\<close>

definition tasks_counted :: "dispatcher \<Rightarrow> bool" where
  "tasks_counted s = (num_remaining_tasks s = int (sum_list (map length (tasks s))))"

text \<open>
  What the untargeted dequeue finds at a slot: a task it can take (\<open>ready\<close>), a subtree
  it retires (\<open>retirable\<close>), or neither (\<open>blocked\<close>: a locked subtree with tasks, or a
  subtree without tasks whose remaining work is not zero).
\<close>

definition ready :: "dispatcher \<Rightarrow> nat \<Rightarrow> bool" where
  "ready s i = (tasks s ! i \<noteq> [] \<and> \<not> query_subtree_locks s ! i)"

definition retirable :: "dispatcher \<Rightarrow> nat \<Rightarrow> bool" where
  "retirable s i = (tasks s ! i = [] \<and> remaining_work_for_query_subtrees s ! i = 0)"

definition blocked :: "dispatcher \<Rightarrow> nat \<Rightarrow> bool" where
  "blocked s i = (\<not> ready s i \<and> \<not> retirable s i)"

text \<open>
  \<open>retires_from i s s1\<close>: the state \<open>s1\<close> comes from \<open>s\<close> by retiring retirable slots, at
  indices that start at \<open>i\<close> or above and do not decrease.
\<close>

inductive retires_from :: "nat \<Rightarrow> dispatcher \<Rightarrow> dispatcher \<Rightarrow> bool" where
  retires_none: "retires_from i s s"
| retires_step:
    "i \<le> k \<Longrightarrow> k < length (tasks s) \<Longrightarrow> retirable s k \<Longrightarrow> retires_from k (retire k s) s1 \<Longrightarrow>
     retires_from i s s1"

text \<open>
  What the second loop of \<^verbatim>\<open>split_subtree_\<close> does with one drained task \<open>t\<close>, for the
  query node \<open>prev_qnode\<close> that is split: whether the task pairs the query node with
  itself, the tasks issued for one child of the query node, and the call to the cache.
\<close>

definition self_pair :: "env \<Rightarrow> nat \<Rightarrow> task \<Rightarrow> bool" where
  "self_pair e prev_qnode t =
     (\<not> node_is_leaf e (reference_start_node t) \<and> prev_qnode = reference_start_node t)"

definition reissued :: "env \<Rightarrow> nat \<Rightarrow> nat \<Rightarrow> task \<Rightarrow> task list" where
  "reissued e prev_qnode child t =
     (if self_pair e prev_qnode t then
        [make_task e child (reference_table t, node_left e (reference_start_node t), cache_id t),
         make_task e child (reference_table t, node_right e (reference_start_node t), cache_id t)]
      else [make_task e child (reference_table t, reference_start_node t, cache_id t)])"

definition relock :: "env \<Rightarrow> nat \<Rightarrow> task \<Rightarrow> exchange_call" where
  "relock e prev_qnode t = LockCache (cache_id t) (if self_pair e prev_qnode t then 3 else 1)"

text \<open>
  The subtrees that \<^verbatim>\<open>RedistributeAmongCores\<close> may split: unlocked, not a leaf, with a
  task in the heap.  \<open>chosen_upto\<close> is what the loop of the method has found after the
  slots below \<open>i\<close>: no index and the size 0 when none of them can be split, otherwise the
  first of those with the largest point count, and that count.
\<close>

definition splittable :: "env \<Rightarrow> dispatcher \<Rightarrow> nat \<Rightarrow> bool" where
  "splittable e s i =
     (\<not> query_subtree_locks s ! i \<and> \<not> node_is_leaf e (query_subtrees s ! i) \<and> tasks s ! i \<noteq> [])"

definition chosen_upto :: "env \<Rightarrow> dispatcher \<Rightarrow> nat \<Rightarrow> int \<times> int \<Rightarrow> bool" where
  "chosen_upto e s i acc =
     (if snd acc < 0 then
        snd acc = - 1 \<and> fst acc = 0 \<and> (\<forall>j < i. \<not> splittable e s j)
      else
        nat (snd acc) < i \<and> splittable e s (nat (snd acc))
        \<and> fst acc = node_count e (query_subtrees s ! nat (snd acc))
        \<and> (\<forall>j < i. splittable e s j \<longrightarrow> node_count e (query_subtrees s ! j) \<le> fst acc)
        \<and> (\<forall>j < nat (snd acc). splittable e s j \<longrightarrow> node_count e (query_subtrees s ! j) < fst acc))"

text \<open>
  What pushing tasks leaves as it is: four of the five vectors, the split request and the
  number of heaps; and the counter of tasks stays right if it was.
\<close>

definition frame_of :: "dispatcher \<Rightarrow> dispatcher \<Rightarrow> bool" where
  "frame_of s s' =
     (query_subtrees s' = query_subtrees s \<and> assigned_work s' = assigned_work s
      \<and> remaining_work_for_query_subtrees s' = remaining_work_for_query_subtrees s
      \<and> query_subtree_locks s' = query_subtree_locks s
      \<and> split_subtree_after_unlocking s' = split_subtree_after_unlocking s
      \<and> length (tasks s') = length (tasks s)
      \<and> (tasks_counted s \<longrightarrow> tasks_counted s'))"

text \<open>
  What \<^verbatim>\<open>GenerateTasks\<close> computes from one received descriptor before its inner loop: the
  reference table, the starting node and the cache id of the tasks, and the interval that
  is inserted into the assigned work.
\<close>

definition reference_pair :: "env \<Rightarrow> int \<times> int \<times> int \<times> int \<Rightarrow> nat \<times> nat \<times> int" where
  "reference_pair e d =
     (case FindSubTable e (snd (snd (snd d))) of
        Some st \<Rightarrow> (subtable_table e st, table_get_tree e (subtable_table e st), snd (snd (snd d)))
      | None \<Rightarrow> (local_table e, FindByBeginCount e (fst (snd d)) (fst (snd (snd d))),
                 snd (snd (snd d))))"

definition reference_interval :: "env \<Rightarrow> int \<times> int \<times> int \<times> int \<Rightarrow> interval" where
  "reference_interval e d =
     (table_rank e (fst (reference_pair e d)), fst (snd d), fst (snd d) + fst (snd (snd d)))"

text \<open>
  The number of tasks of a cache id in the heaps, and the number of times the trace of
  the exchange has locked a cache id.
\<close>

definition tasks_of_cache :: "int \<Rightarrow> dispatcher \<Rightarrow> nat" where
  "tasks_of_cache c s = sum_list (map (\<lambda>h. length (filter (\<lambda>t. cache_id t = c) h)) (tasks s))"

fun locks_in :: "int \<Rightarrow> exchange_call list \<Rightarrow> int" where
  "locks_in c [] = 0"
| "locks_in c (LockCache c' n # calls) = (if c' = c then n else 0) + locks_in c calls"
| "locks_in c (x # calls) = locks_in c calls"

text \<open>The assigned work of every live query subtree covers the interval.\<close>

definition covered_everywhere :: "interval \<Rightarrow> dispatcher \<Rightarrow> bool" where
  "covered_everywhere iv s =
     (\<forall>k < length (query_subtrees s). k < length (assigned_work s) \<and> covered iv (assigned_work s ! k))"

text \<open>
  The intervals of the descriptors of a list that an interval set does not cover yet.
\<close>

definition fresh_intervals :: "env \<Rightarrow> (int \<times> int \<times> int \<times> int) list \<Rightarrow> interval_set \<Rightarrow> interval set" where
  "fresh_intervals e ds w = {x \<in> reference_interval e ` set ds. \<not> covered x w}"

section \<open>A concrete environment and concrete states\<close>

text \<open>
  Two query subtrees, nodes 1 and 2, of 100 points each; node 1 has the children 3 and 4,
  node 2 the children 5 and 6, all four leaves of 50 points.  The cache ids 7, 8 and 9
  resolve to sub-tables of the ranks 1, 1 and 2; every other cache id falls back to the
  local table (address 60, rank 0), whose nodes are found by begin and count.
\<close>

definition demo_env :: env where
  "demo_env =
     \<lparr> node_left = (\<lambda>n. if n = 1 then 3 else if n = 2 then 5 else NULL),
       node_right = (\<lambda>n. if n = 1 then 4 else if n = 2 then 6 else NULL),
       node_is_leaf = (\<lambda>n. n \<noteq> 1 \<and> n \<noteq> 2),
       node_begin = (\<lambda>n. if n = 2 then 100 else if n = 4 then 50 else if n = 5 then 100
                          else if n = 6 then 150 else 0),
       node_count = (\<lambda>n. if n = 1 \<or> n = 2 then 100 else 50),
       range_distance_sq_mid = (\<lambda>q r. real q + real r),
       FindSubTable = (\<lambda>c. if c = 7 then Some 70 else if c = 8 then Some 80
                            else if c = 9 then Some 90 else None),
       subtable_table = (\<lambda>st. st + 1),
       table_get_tree = (\<lambda>tbl. tbl + 1),
       table_rank = (\<lambda>tbl. if tbl = 91 then 2 else if tbl = 60 then 0 else 1),
       local_table = 60,
       FindByBeginCount = (\<lambda>b c. if b = 0 \<and> c = 100 then 1
                                  else if b = 100 \<and> c = 100 then 2 else NULL),
       default_task = \<lparr> query_subtree = NULL, reference_table = NULL,
                        reference_start_node = NULL, cache_id = 0, priority = 0 \<rparr>,
       get_frontier_nodes_bounded_by_number = (\<lambda>n v. v @ [1, 2]) \<rparr>"

text \<open>A state in which subtree 0 is locked with one pending task and subtree 1 has none.\<close>

definition demo_busy :: dispatcher where
  "demo_busy =
     \<lparr> query_subtrees = [1, 2],
       assigned_work = [[(1, 0, 50)], [(1, 0, 50)]],
       remaining_work_for_query_subtrees = [200, 200],
       query_subtree_locks = [True, False],
       tasks = [[make_task demo_env 1 (71, 72, 7)], []],
       split_subtree_after_unlocking = False,
       table_exchange = [ExchangeInit, LockCache 7 1, LockCache 7 1],
       num_remaining_tasks = 1,
       remaining_global_computation = 40000,
       remaining_local_computation = 20000 \<rparr>"

text \<open>
  A state in which subtree 0 is locked, subtree 1 has no task and no remaining work, and
  subtree 2 has one task.
\<close>

definition demo_scan :: dispatcher where
  "demo_scan =
     \<lparr> query_subtrees = [1, 2, 5],
       assigned_work = [[(1, 0, 50)], [(1, 0, 50)], [(1, 0, 50)]],
       remaining_work_for_query_subtrees = [200, 0, 200],
       query_subtree_locks = [True, False, False],
       tasks = [[make_task demo_env 1 (71, 72, 7)], [], [make_task demo_env 5 (71, 72, 7)]],
       split_subtree_after_unlocking = False,
       table_exchange = [ExchangeInit, LockCache 7 1, LockCache 7 1, LockCache 7 1],
       num_remaining_tasks = 2,
       remaining_global_computation = 40000,
       remaining_local_computation = 20000 \<rparr>"

text \<open>
  The state after two received sub-tables: the local one of cache id 5, whose tree is the
  query node 1 itself, and the one of cache id 7.  Each of the two query subtrees has a
  task for each of them.
\<close>

definition demo_loaded :: dispatcher where
  "demo_loaded =
     \<lparr> query_subtrees = [1, 2],
       assigned_work = [[(0, 0, 100), (1, 0, 50)], [(0, 0, 100), (1, 0, 50)]],
       remaining_work_for_query_subtrees = [200, 200],
       query_subtree_locks = [False, False],
       tasks = [[make_task demo_env 1 (60, 1, 5), make_task demo_env 1 (71, 72, 7)],
                [make_task demo_env 2 (60, 1, 5), make_task demo_env 2 (71, 72, 7)]],
       split_subtree_after_unlocking = False,
       table_exchange = [ExchangeInit, LockCache 5 1, LockCache 5 1, LockCache 7 1, LockCache 7 1],
       num_remaining_tasks = 4,
       remaining_global_computation = 40000,
       remaining_local_computation = 20000 \<rparr>"

text \<open>The same state with a split requested.\<close>

definition demo_requested :: dispatcher where
  "demo_requested = demo_loaded\<lparr> split_subtree_after_unlocking := True \<rparr>"

text \<open>
  The state \<open>demo_loaded\<close> after the split of its subtree 0, and the state \<open>demo_scan\<close>
  after an untargeted dequeue.
\<close>

definition demo_split :: dispatcher where
  "demo_split =
     demo_loaded\<lparr>
       query_subtrees := [3, 2, 4],
       query_subtree_locks := [False, False, False],
       tasks := [[make_task demo_env 3 (60, 3, 5), make_task demo_env 3 (60, 4, 5),
                  make_task demo_env 3 (71, 72, 7)],
                 [make_task demo_env 2 (60, 1, 5), make_task demo_env 2 (71, 72, 7)],
                 [make_task demo_env 4 (60, 3, 5), make_task demo_env 4 (60, 4, 5),
                  make_task demo_env 4 (71, 72, 7)]],
       assigned_work := [[(0, 0, 100), (1, 0, 50)], [(0, 0, 100), (1, 0, 50)],
                         [(0, 0, 100), (1, 0, 50)]],
       remaining_work_for_query_subtrees := [200, 200, 200],
       num_remaining_tasks := 8,
       table_exchange := [ExchangeInit, LockCache 5 1, LockCache 5 1, LockCache 7 1,
                          LockCache 7 1, LockCache 5 3, LockCache 7 1] \<rparr>"

definition demo_scanned :: dispatcher where
  "demo_scanned =
     demo_scan\<lparr>
       query_subtrees := [1, 5],
       assigned_work := [[(1, 0, 50)], [(1, 0, 50)]],
       remaining_work_for_query_subtrees := [200, 200],
       query_subtree_locks := [True, True],
       tasks := [[make_task demo_env 1 (71, 72, 7)], []],
       num_remaining_tasks := 1 \<rparr>"

text \<open>The task queue after \<^verbatim>\<open>Init\<close> in the concrete environment, two processes of 100 points.\<close>

definition demo_init :: dispatcher where
  "demo_init = Init demo_env 2 (\<lambda>i. 100) (\<lambda>i. 100) 100 2 constructor"

section \<open>Theorems\<close>

subsection \<open>Auxiliary facts about heaps, vectors and the drain loop\<close>

lemma length_heap_push [simp]: "length (heap_push t h) = Suc (length h)"
  by (induction h) auto

lemma set_heap_push [simp]: "set (heap_push t h) = insert t (set h)"
  by (induction h) auto

lemma swap_pop_snoc: "swap_pop i (ys @ [l]) = (if i < length ys then ys[i := l] else ys)"
  by (simp add: swap_pop_def list_update_append butlast_append split: nat.splits)

lemma length_swap_pop [simp]: "length (swap_pop i xs) = length xs - 1"
  by (simp add: swap_pop_def)

lemma swap_pop_zip:
  "length xs = length ys \<Longrightarrow> zip (swap_pop i xs) (swap_pop i ys) = swap_pop i (zip xs ys)"
proof (cases xs rule: rev_cases)
  case Nil
  then show "length xs = length ys \<Longrightarrow> ?thesis" by (simp add: swap_pop_def)
next
  case (snoc xs' a)
  assume len: "length xs = length ys"
  with snoc obtain ys' b where ys: "ys = ys' @ [b]" and l: "length xs' = length ys'"
    by (cases ys rule: rev_cases) auto
  show ?thesis
    unfolding snoc ys using l by (simp add: swap_pop_snoc zip_update)
qed

lemma sum_list_swap_pop:
  "i < length ts \<Longrightarrow> ts ! i = [] \<Longrightarrow>
     sum_list (map length (swap_pop i ts)) = sum_list (map length ts)"
proof (cases ts rule: rev_cases)
  case Nil
  then show "i < length ts \<Longrightarrow> ts ! i = [] \<Longrightarrow> ?thesis" by simp
next
  case (snoc ts' l)
  assume i: "i < length ts" and e: "ts ! i = []"
  show ?thesis
  proof (cases "i < length ts'")
    case True
    with e snoc have "ts' ! i = []" by (simp add: nth_append)
    with True show ?thesis
      unfolding snoc by (simp add: swap_pop_snoc map_update sum_list_update)
  next
    case False
    with i snoc have "i = length ts'" by simp
    with e snoc have "l = []" by simp
    with False show ?thesis
      unfolding snoc by (simp add: swap_pop_snoc)
  qed
qed

lemma sum_list_heap_update:
  "i < length ts \<Longrightarrow>
     int (sum_list (map length (ts[i := h])))
       = int (sum_list (map length ts)) - int (length (ts ! i)) + int (length h)"
proof (induction ts arbitrary: i)
  case Nil
  then show ?case by simp
next
  case (Cons a ts)
  then show ?case by (cases i) auto
qed

lemma PushTask_Inr:
  "PushTask e i p s = Inr s' \<longleftrightarrow>
     in_range (query_subtrees s) i \<and> query_subtrees s ! nat i \<noteq> NULL \<and> fst (snd p) \<noteq> NULL
     \<and> in_range (tasks s) i
     \<and> s' = s\<lparr> tasks := (tasks s)[nat i := heap_push (make_task e (query_subtrees s ! nat i) p)
                                              (tasks s ! nat i)],
                num_remaining_tasks := num_remaining_tasks s + 1 \<rparr>"
  by (auto simp: PushTask_def Let_def)

lemma DequeueTask_at_pop:
  "in_range (tasks s) p \<Longrightarrow> tasks s ! nat p \<noteq> [] \<Longrightarrow> in_range (query_subtree_locks s) p \<Longrightarrow>
   \<not> query_subtree_locks s ! nat p \<Longrightarrow>
   DequeueTask_at p out l s =
     Inr ((hd (tasks s ! nat p), p),
          s\<lparr> tasks := (tasks s)[nat p := tl (tasks s ! nat p)],
             query_subtree_locks := (query_subtree_locks s)[nat p := l],
             num_remaining_tasks := num_remaining_tasks s - 1 \<rparr>)"
  by (simp add: DequeueTask_at_def)

lemma drain_unlocked:
  "in_range (tasks s) p \<Longrightarrow> length (tasks s ! nat p) = n \<Longrightarrow>
   tasks s ! nat p = [] \<or> (in_range (query_subtree_locks s) p \<and> \<not> query_subtree_locks s ! nat p) \<Longrightarrow>
   drain e p acc s =
     Some (Inr (acc @ tasks s ! nat p,
                s\<lparr> tasks := (tasks s)[nat p := []],
                   num_remaining_tasks := num_remaining_tasks s - int (length (tasks s ! nat p)) \<rparr>))"
proof (induction n arbitrary: s acc)
  case 0
  then have e: "tasks s ! nat p = []" by simp
  then have "(tasks s)[nat p := []] = tasks s"
    by (metis list_update_id)
  with 0 e show ?case by (subst drain.simps) simp
next
  case (Suc n)
  then obtain t h where h: "tasks s ! nat p = t # h" and n: "length h = n"
    by (cases "tasks s ! nat p") auto
  with Suc.prems have lk: "in_range (query_subtree_locks s) p" "\<not> query_subtree_locks s ! nat p"
    by auto
  then have same: "(query_subtree_locks s)[nat p := False] = query_subtree_locks s"
    by (metis list_update_id)
  let ?s1 = "s\<lparr> tasks := (tasks s)[nat p := h],
                num_remaining_tasks := num_remaining_tasks s - 1 \<rparr>"
  have deq: "DequeueTask_at p (default_task e, 0) False s = Inr ((t, p), ?s1)"
    using DequeueTask_at_pop [OF Suc.prems(1) _ lk, of "(default_task e, 0)" False] h same
    by simp
  have rng: "nat p < length (tasks s)"
    using Suc.prems(1) by (auto simp: in_range_def)
  have ih: "drain e p (acc @ [t]) ?s1 =
     Some (Inr ((acc @ [t]) @ tasks ?s1 ! nat p,
                ?s1\<lparr> tasks := (tasks ?s1)[nat p := []],
                   num_remaining_tasks := num_remaining_tasks ?s1 - int (length (tasks ?s1 ! nat p)) \<rparr>))"
    using Suc.prems(1) lk n rng by (intro Suc.IH) (auto simp: in_range_def)
  show ?case
    using Suc.prems(1) h deq ih rng by (subst drain.simps) simp
qed

lemma drain_locked_aux:
  assumes "drain e p acc s = Some y"
  shows "\<not> (in_range (tasks s) p \<and> tasks s ! nat p \<noteq> [] \<and> in_range (query_subtree_locks s) p
       \<and> query_subtree_locks s ! nat p)"
proof (rule drain.raw_induct
    [where P = "\<lambda>e p acc s y. \<not> (in_range (tasks s) p \<and> tasks s ! nat p \<noteq> []
       \<and> in_range (query_subtree_locks s) p \<and> query_subtree_locks s ! nat p)", OF _ assms])
  fix f :: "env \<Rightarrow> int \<Rightarrow> task list \<Rightarrow> dispatcher \<Rightarrow> (fault + task list \<times> dispatcher) option"
  fix e p acc s y
  assume ih: "\<And>e p acc s y. f e p acc s = Some y \<Longrightarrow>
      \<not> (in_range (tasks s) p \<and> tasks s ! nat p \<noteq> [] \<and> in_range (query_subtree_locks s) p
       \<and> query_subtree_locks s ! nat p)"
  assume body: "(if \<not> in_range (tasks s) p then Some (Inl OutOfRange)
      else if 0 < length (tasks s ! nat p)
           then case DequeueTask_at p (default_task e, 0) False s of
                Inl f \<Rightarrow> Some (Inl f)
                | Inr r \<Rightarrow> f e p (acc @ [fst (fst r)]) (snd r)
           else Some (Inr (acc, s))) = Some y"
  show "\<not> (in_range (tasks s) p \<and> tasks s ! nat p \<noteq> [] \<and> in_range (query_subtree_locks s) p
       \<and> query_subtree_locks s ! nat p)"
  proof
    assume locked: "in_range (tasks s) p \<and> tasks s ! nat p \<noteq> []
      \<and> in_range (query_subtree_locks s) p \<and> query_subtree_locks s ! nat p"
    then have d: "DequeueTask_at p (default_task e, 0) False s = Inr ((default_task e, 0), s)"
      by (simp add: DequeueTask_at_def)
    from body locked d have "f e p (acc @ [default_task e]) s = Some y"
      by simp
    from ih [OF this] locked show False by simp
  qed
qed

lemma drain_locked:
  "in_range (tasks s) p \<Longrightarrow> tasks s ! nat p \<noteq> [] \<Longrightarrow> in_range (query_subtree_locks s) p \<Longrightarrow>
   query_subtree_locks s ! nat p \<Longrightarrow> drain e p acc s = None"
  using drain_locked_aux [of e p acc s] by (cases "drain e p acc s") auto

lemma drain_cases:
  "drain e p acc s =
     (if \<not> in_range (tasks s) p then Some (Inl OutOfRange)
      else if tasks s ! nat p = [] then Some (Inr (acc, s))
      else if \<not> in_range (query_subtree_locks s) p then Some (Inl OutOfRange)
      else if query_subtree_locks s ! nat p then None
      else Some (Inr (acc @ tasks s ! nat p,
                s\<lparr> tasks := (tasks s)[nat p := []],
                   num_remaining_tasks := num_remaining_tasks s - int (length (tasks s ! nat p)) \<rparr>)))"
proof -
  have a: "drain e p acc s = Some (Inl OutOfRange)" if "\<not> in_range (tasks s) p"
    using that by (subst drain.simps) simp
  have b: "drain e p acc s = Some (Inr (acc, s))" if "in_range (tasks s) p" "tasks s ! nat p = []"
    using that by (subst drain.simps) simp
  have c: "drain e p acc s = Some (Inl OutOfRange)"
    if "in_range (tasks s) p" "tasks s ! nat p \<noteq> []" "\<not> in_range (query_subtree_locks s) p"
    using that by (subst drain.simps) (simp add: DequeueTask_at_def)
  show ?thesis
    using a b c drain_locked [of s p e acc] drain_unlocked [of s p _ e acc] by auto
qed

subsection \<open>The targeted dequeue leaves an empty or locked subtree alone\<close>

text \<open>
  C10.  When the heap at the index is empty, and when it is not empty but the lock of the
  subtree is set, the targeted \<^verbatim>\<open>DequeueTask\<close> returns with every field of the task queue
  as it was (no heap, lock or counter is written and nothing is retired) and with the
  out-parameter as the caller passed it.
\<close>

theorem targeted_dequeue_frame:
  assumes "in_range (tasks s) probe_index"
    and "tasks s ! nat probe_index = []
         \<or> (in_range (query_subtree_locks s) probe_index \<and> query_subtree_locks s ! nat probe_index)"
  shows "DequeueTask_at probe_index task_out lock_query_subtree_in s = Inr (task_out, s)"
  using assms by (auto simp: DequeueTask_at_def)

theorem targeted_dequeue_frame_witness:
  "in_range (tasks demo_busy) 0 \<and> tasks demo_busy ! nat 0 \<noteq> []
   \<and> in_range (query_subtree_locks demo_busy) 0 \<and> query_subtree_locks demo_busy ! nat 0
   \<and> DequeueTask_at 0 (default_task demo_env, 5) True demo_busy
       = Inr ((default_task demo_env, 5), demo_busy)
   \<and> in_range (tasks demo_busy) 1 \<and> tasks demo_busy ! nat 1 = []
   \<and> DequeueTask_at 1 (default_task demo_env, 5) False demo_busy
       = Inr ((default_task demo_env, 5), demo_busy)"
  using targeted_dequeue_frame [of demo_busy 0 "(default_task demo_env, 5)" True]
    targeted_dequeue_frame [of demo_busy 1 "(default_task demo_env, 5)" False]
  by (simp add: demo_busy_def in_range_def)

subsection \<open>Completed computation is subtracted modulo \<open>2 ^ 64\<close>\<close>

lemma unat_ulong_minus:
  fixes a b :: ulong
  shows "unat (a - b) = ulong_minus (unat a) (unat b)"
  by (simp add: ulong_minus_def unat_sub_if')

lemma subtract_reference_count_from_result:
  "subtract_reference_count_from rc i s = Inr s' \<Longrightarrow>
     s'\<lparr> remaining_work_for_query_subtrees := remaining_work_for_query_subtrees s \<rparr> = s
     \<and> length (remaining_work_for_query_subtrees s') = length (remaining_work_for_query_subtrees s)
     \<and> (i < length (query_subtrees s) \<longrightarrow>
          length (query_subtrees s) \<le> length (remaining_work_for_query_subtrees s))
     \<and> (\<forall>k < length (remaining_work_for_query_subtrees s).
           remaining_work_for_query_subtrees s' ! k =
             (if i \<le> k \<and> k < length (query_subtrees s)
              then remaining_work_for_query_subtrees s ! k - rc
              else remaining_work_for_query_subtrees s ! k))"
proof (induction rc i s rule: subtract_reference_count_from.induct)
  case (1 rc i s)
  show ?case
  proof (cases "i < length (query_subtrees s)")
    case False
    with "1.prems" show ?thesis
      by (subst (asm) subtract_reference_count_from.simps) auto
  next
    case True
    with "1.prems" have len: "i < length (remaining_work_for_query_subtrees s)"
      by (subst (asm) subtract_reference_count_from.simps) (simp split: if_splits)
    let ?s1 = "s\<lparr> remaining_work_for_query_subtrees :=
                      (remaining_work_for_query_subtrees s)
                        [i := remaining_work_for_query_subtrees s ! i - rc] \<rparr>"
    from "1.prems" True len have rec: "subtract_reference_count_from rc (i + 1) ?s1 = Inr s'"
      by (subst (asm) subtract_reference_count_from.simps) simp
    from "1.IH" [OF True _ rec] len
    have ih: "s'\<lparr> remaining_work_for_query_subtrees := remaining_work_for_query_subtrees ?s1 \<rparr> = ?s1"
      "length (remaining_work_for_query_subtrees s') = length (remaining_work_for_query_subtrees ?s1)"
      "i + 1 < length (query_subtrees ?s1) \<longrightarrow>
          length (query_subtrees ?s1) \<le> length (remaining_work_for_query_subtrees ?s1)"
      "\<forall>k < length (remaining_work_for_query_subtrees ?s1).
           remaining_work_for_query_subtrees s' ! k =
             (if i + 1 \<le> k \<and> k < length (query_subtrees ?s1)
              then remaining_work_for_query_subtrees ?s1 ! k - rc
              else remaining_work_for_query_subtrees ?s1 ! k)"
      by simp_all
    have a: "s'\<lparr> remaining_work_for_query_subtrees := remaining_work_for_query_subtrees s \<rparr> = s"
    proof -
      have "s'\<lparr> remaining_work_for_query_subtrees := remaining_work_for_query_subtrees s \<rparr>
            = (s'\<lparr> remaining_work_for_query_subtrees := remaining_work_for_query_subtrees ?s1 \<rparr>)
                \<lparr> remaining_work_for_query_subtrees := remaining_work_for_query_subtrees s \<rparr>"
        by simp
      also have "\<dots> = s" unfolding ih(1) by simp
      finally show ?thesis .
    qed
    have b: "length (remaining_work_for_query_subtrees s') = length (remaining_work_for_query_subtrees s)"
      using ih(2) by simp
    have d: "length (query_subtrees s) \<le> length (remaining_work_for_query_subtrees s)"
      using ih(3) len True by (cases "i + 1 < length (query_subtrees s)") auto
    have c: "remaining_work_for_query_subtrees s' ! k =
             (if i \<le> k \<and> k < length (query_subtrees s)
              then remaining_work_for_query_subtrees s ! k - rc
              else remaining_work_for_query_subtrees s ! k)"
      if "k < length (remaining_work_for_query_subtrees s)" for k
      using ih(4) that True by (cases "k = i") (auto simp: nth_list_update)
    from a b c d show ?thesis by blast
  qed
qed

lemma subtract_quantity_fields [simp]:
  "query_subtrees (subtract_quantity q s) = query_subtrees s"
  "remaining_work_for_query_subtrees (subtract_quantity q s) = remaining_work_for_query_subtrees s"
  "remaining_global_computation (subtract_quantity q s) = remaining_global_computation s - q"
  "remaining_local_computation (subtract_quantity q s) = remaining_local_computation s - q"
  by (simp_all add: subtract_quantity_def)

lemma FindQuerySubtreeIndex_from_frame:
  "query_subtrees s' = query_subtrees s \<Longrightarrow>
     FindQuerySubtreeIndex_from e qid i s' = FindQuerySubtreeIndex_from e qid i s"
proof (induction e qid i s rule: FindQuerySubtreeIndex_from.induct)
  case (1 e qid i s)
  show ?case
    using 1 by (subst FindQuerySubtreeIndex_from.simps, subst (2) FindQuerySubtreeIndex_from.simps) auto
qed

text \<open>
  C7, as the code has it.  Both forms of \<^verbatim>\<open>push_completed_computation\<close> subtract the
  quantity from the global and the local counter, and the reference count from the
  remaining work of the subtree found (targeted form) or of every subtree (the other
  form), as 64-bit unsigned numbers: a counter that is at least the amount subtracted
  goes down by exactly that amount, and a smaller one wraps around to the old value
  plus \<open>2 ^ 64\<close> minus the amount.  Nothing saturates at zero.
\<close>

theorem completed_computation_modular:
  "(push_completed_computation rc q s = Inr s' \<longrightarrow>
       unat (remaining_global_computation s')
         = ulong_minus (unat (remaining_global_computation s)) (unat q)
     \<and> unat (remaining_local_computation s')
         = ulong_minus (unat (remaining_local_computation s)) (unat q)
     \<and> length (remaining_work_for_query_subtrees s') = length (remaining_work_for_query_subtrees s)
     \<and> length (query_subtrees s) \<le> length (remaining_work_for_query_subtrees s)
     \<and> (\<forall>k < length (remaining_work_for_query_subtrees s).
          unat (remaining_work_for_query_subtrees s' ! k) =
            (if k < length (query_subtrees s)
             then ulong_minus (unat (remaining_work_for_query_subtrees s ! k)) (unat rc)
             else unat (remaining_work_for_query_subtrees s ! k))))
   \<and> (push_completed_computation_for e qid rc q s = Inr s'' \<longrightarrow>
       unat (remaining_global_computation s'')
         = ulong_minus (unat (remaining_global_computation s)) (unat q)
     \<and> unat (remaining_local_computation s'')
         = ulong_minus (unat (remaining_local_computation s)) (unat q)
     \<and> length (remaining_work_for_query_subtrees s'') = length (remaining_work_for_query_subtrees s)
     \<and> (\<exists>i < length (remaining_work_for_query_subtrees s).
          FindQuerySubtreeIndex e qid s = Inr (int i)
          \<and> (\<forall>k < length (remaining_work_for_query_subtrees s).
                unat (remaining_work_for_query_subtrees s'' ! k) =
                  (if k = i
                   then ulong_minus (unat (remaining_work_for_query_subtrees s ! k)) (unat rc)
                   else unat (remaining_work_for_query_subtrees s ! k)))))"
proof (intro conjI impI)
  assume a: "push_completed_computation rc q s = Inr s'"
  let ?s1 = "subtract_quantity q s"
  from a have r: "subtract_reference_count_from rc 0 ?s1 = Inr s'"
    by (simp add: push_completed_computation_def)
  note res = subtract_reference_count_from_result [OF r]
  from res have eq: "s'\<lparr> remaining_work_for_query_subtrees := remaining_work_for_query_subtrees ?s1 \<rparr> = ?s1"
    by blast
  have g: "remaining_global_computation s' = remaining_global_computation ?s1"
    and l: "remaining_local_computation s' = remaining_local_computation ?s1"
    by (subst eq [symmetric], simp)+
  show "unat (remaining_global_computation s')
         = ulong_minus (unat (remaining_global_computation s)) (unat q)"
    using g by (simp add: subtract_quantity_def unat_ulong_minus)
  show "unat (remaining_local_computation s')
         = ulong_minus (unat (remaining_local_computation s)) (unat q)"
    using l by (simp add: subtract_quantity_def unat_ulong_minus)
  show "length (remaining_work_for_query_subtrees s') = length (remaining_work_for_query_subtrees s)"
    using res by (simp add: subtract_quantity_def)
  show "length (query_subtrees s) \<le> length (remaining_work_for_query_subtrees s)"
    using res by (cases "0 < length (query_subtrees s)") (auto simp: subtract_quantity_def)
  show "\<forall>k < length (remaining_work_for_query_subtrees s).
          unat (remaining_work_for_query_subtrees s' ! k) =
            (if k < length (query_subtrees s)
             then ulong_minus (unat (remaining_work_for_query_subtrees s ! k)) (unat rc)
             else unat (remaining_work_for_query_subtrees s ! k))"
    using res by (auto simp: subtract_quantity_def unat_ulong_minus)
next
  assume a: "push_completed_computation_for e qid rc q s = Inr s''"
  let ?s1 = "subtract_quantity q s"
  have f: "FindQuerySubtreeIndex e qid ?s1 = FindQuerySubtreeIndex e qid s"
    unfolding FindQuerySubtreeIndex_def
    by (rule FindQuerySubtreeIndex_from_frame) simp
  from a obtain j where j: "FindQuerySubtreeIndex e qid s = Inr j"
    by (cases "FindQuerySubtreeIndex e qid s")
       (auto simp: push_completed_computation_for_def Let_def f)
  from a j have rng: "in_range (remaining_work_for_query_subtrees s) j"
    by (auto simp: push_completed_computation_for_def Let_def f split: if_splits)
  from a j rng have s'': "s'' = ?s1\<lparr> remaining_work_for_query_subtrees :=
                 (remaining_work_for_query_subtrees s)
                   [nat j := remaining_work_for_query_subtrees s ! nat j - rc] \<rparr>"
    by (auto simp: push_completed_computation_for_def Let_def f)
  show "unat (remaining_global_computation s'')
         = ulong_minus (unat (remaining_global_computation s)) (unat q)"
    by (simp add: s'' subtract_quantity_def unat_ulong_minus)
  show "unat (remaining_local_computation s'')
         = ulong_minus (unat (remaining_local_computation s)) (unat q)"
    by (simp add: s'' subtract_quantity_def unat_ulong_minus)
  show "length (remaining_work_for_query_subtrees s'') = length (remaining_work_for_query_subtrees s)"
    by (simp add: s'' subtract_quantity_def)
  show "\<exists>i < length (remaining_work_for_query_subtrees s).
          FindQuerySubtreeIndex e qid s = Inr (int i)
          \<and> (\<forall>k < length (remaining_work_for_query_subtrees s).
                unat (remaining_work_for_query_subtrees s'' ! k) =
                  (if k = i
                   then ulong_minus (unat (remaining_work_for_query_subtrees s ! k)) (unat rc)
                   else unat (remaining_work_for_query_subtrees s ! k)))"
    using rng j
    by (intro exI [of _ "nat j"])
       (auto simp: s'' subtract_quantity_def unat_ulong_minus in_range_def nth_list_update)
qed

theorem completed_computation_modular_witness:
  "push_completed_computation 50 5000 demo_busy =
     Inr (demo_busy\<lparr> remaining_global_computation := 35000,
                      remaining_local_computation := 15000,
                      table_exchange := table_exchange demo_busy @ [ExchangePushCompleted 5000],
                      remaining_work_for_query_subtrees := [150, 150] \<rparr>)
   \<and> unat (remaining_global_computation
        (demo_busy\<lparr> remaining_global_computation := 35000,
                      remaining_local_computation := 15000,
                      table_exchange := table_exchange demo_busy @ [ExchangePushCompleted 5000],
                      remaining_work_for_query_subtrees := [150, 150] \<rparr>))
       = ulong_minus (unat (remaining_global_computation demo_busy)) (unat (5000 :: ulong))
   \<and> push_completed_computation_for demo_env (0, 0, 100) 50 5000 demo_busy =
     Inr (demo_busy\<lparr> remaining_global_computation := 35000,
                      remaining_local_computation := 15000,
                      table_exchange := table_exchange demo_busy @ [ExchangePushCompleted 5000],
                      remaining_work_for_query_subtrees := [150, 200] \<rparr>)
   \<and> unat (remaining_local_computation
        (demo_busy\<lparr> remaining_global_computation := 35000,
                      remaining_local_computation := 15000,
                      table_exchange := table_exchange demo_busy @ [ExchangePushCompleted 5000],
                      remaining_work_for_query_subtrees := [150, 200] \<rparr>))
       = ulong_minus (unat (remaining_local_computation demo_busy)) (unat (5000 :: ulong))"
proof -
  let ?w1 = "demo_busy\<lparr> remaining_global_computation := 35000,
                      remaining_local_computation := 15000,
                      table_exchange := table_exchange demo_busy @ [ExchangePushCompleted 5000],
                      remaining_work_for_query_subtrees := [150, 150] \<rparr>"
  let ?w2 = "demo_busy\<lparr> remaining_global_computation := 35000,
                      remaining_local_computation := 15000,
                      table_exchange := table_exchange demo_busy @ [ExchangePushCompleted 5000],
                      remaining_work_for_query_subtrees := [150, 200] \<rparr>"
  have a: "push_completed_computation 50 5000 demo_busy = Inr ?w1"
    by (simp add: push_completed_computation_def subtract_quantity_def demo_busy_def
        subtract_reference_count_from.simps)
  have b: "push_completed_computation_for demo_env (0, 0, 100) 50 5000 demo_busy = Inr ?w2"
    by (simp add: push_completed_computation_for_def FindQuerySubtreeIndex_def
        FindQuerySubtreeIndex_from.simps has_id_def subtract_quantity_def demo_busy_def
        demo_env_def in_range_def)
  from completed_computation_modular [of 50 5000 demo_busy ?w1 demo_env "(0, 0, 100)" ?w2] a b
  show ?thesis by blast
qed

text \<open>
  The claim C7 as the spec states it fails: with a quantity of 40001 against counters of
  40000 and 20000, and a reference count of 201 against a remaining work of 200, the
  counters do not stop at zero but wrap around, and are larger afterwards than before.
\<close>

theorem completed_computation_wraps_counterexample:
  "remaining_global_computation demo_busy < 40001
   \<and> remaining_work_for_query_subtrees demo_busy ! 0 < 201
   \<and> push_completed_computation 201 40001 demo_busy =
       Inr (demo_busy\<lparr> remaining_global_computation := 18446744073709551615,
                        remaining_local_computation := 18446744073709531615,
                        table_exchange := table_exchange demo_busy @ [ExchangePushCompleted 40001],
                        remaining_work_for_query_subtrees :=
                          [18446744073709551615, 18446744073709551615] \<rparr>)
   \<and> push_completed_computation_for demo_env (0, 0, 100) 201 40001 demo_busy =
       Inr (demo_busy\<lparr> remaining_global_computation := 18446744073709551615,
                        remaining_local_computation := 18446744073709531615,
                        table_exchange := table_exchange demo_busy @ [ExchangePushCompleted 40001],
                        remaining_work_for_query_subtrees := [18446744073709551615, 200] \<rparr>)
   \<and> remaining_global_computation demo_busy < 18446744073709551615
   \<and> remaining_work_for_query_subtrees demo_busy ! 0 < 18446744073709551615"
  by (simp add: push_completed_computation_def push_completed_computation_for_def
      FindQuerySubtreeIndex_def FindQuerySubtreeIndex_from.simps has_id_def
      subtract_quantity_def subtract_reference_count_from.simps demo_busy_def demo_env_def
      in_range_def)

subsection \<open>Looking up a query subtree by its id\<close>





lemma length_slots: "aligned s \<Longrightarrow> length (slots s) = length (query_subtrees s)"
  by (simp add: slots_def aligned_def)

lemma nth_slots:
  "aligned s \<Longrightarrow> k < length (query_subtrees s) \<Longrightarrow>
     slots s ! k = (query_subtrees s ! k, assigned_work s ! k,
       remaining_work_for_query_subtrees s ! k, query_subtree_locks s ! k, tasks s ! k)"
  by (simp add: slots_def aligned_def)

subsection \<open>The untargeted dequeue\<close>

lemma retire_aligned: "aligned s \<Longrightarrow> aligned (retire i s)"
  by (simp add: aligned_def retire_def)

lemma retire_slots: "aligned s \<Longrightarrow> slots (retire i s) = swap_pop i (slots s)"
  by (simp add: aligned_def retire_def slots_def swap_pop_zip)

lemma retire_counted:
  "i < length (tasks s) \<Longrightarrow> tasks s ! i = [] \<Longrightarrow> tasks_counted s \<Longrightarrow> tasks_counted (retire i s)"
  by (simp add: tasks_counted_def retire_def sum_list_swap_pop)

lemma dequeue_pop_counted:
  assumes "i < length (tasks s)" "tasks s ! i \<noteq> []" "tasks_counted s"
  shows "tasks_counted (s\<lparr> tasks := (tasks s)[i := tl (tasks s ! i)],
                      query_subtree_locks := ls,
                      num_remaining_tasks := num_remaining_tasks s - 1 \<rparr>)"
proof -
  from assms(2) have "int (length (tl (tasks s ! i))) = int (length (tasks s ! i)) - 1"
    by (cases "tasks s ! i") auto
  with assms show ?thesis
    by (simp add: tasks_counted_def sum_list_heap_update)
qed

lemma DequeueTask_from_end:
  "\<not> i < length (tasks s) \<Longrightarrow> DequeueTask_from i out l s = Inr (out, s)"
  by (subst DequeueTask_from.simps) simp

lemma DequeueTask_from_ready:
  "i < length (tasks s) \<Longrightarrow> i < length (query_subtree_locks s) \<Longrightarrow> ready s i \<Longrightarrow>
   DequeueTask_from i out l s =
     Inr ((hd (tasks s ! i), int i),
          s\<lparr> tasks := (tasks s)[i := tl (tasks s ! i)],
             query_subtree_locks := (query_subtree_locks s)[i := l],
             num_remaining_tasks := num_remaining_tasks s - 1 \<rparr>)"
  by (subst DequeueTask_from.simps) (simp add: ready_def)

lemma DequeueTask_from_blocked:
  "aligned s \<Longrightarrow> i < length (tasks s) \<Longrightarrow> blocked s i \<Longrightarrow>
   DequeueTask_from i out l s = DequeueTask_from (i + 1) out l s"
  by (subst DequeueTask_from.simps) (auto simp: blocked_def ready_def retirable_def aligned_def)

lemma DequeueTask_from_retirable:
  "aligned s \<Longrightarrow> i < length (tasks s) \<Longrightarrow> retirable s i \<Longrightarrow>
   DequeueTask_from i out l s = DequeueTask_from i out l (retire i s)"
  by (subst DequeueTask_from.simps) (auto simp: retirable_def aligned_def)

lemma slot_cases:
  "ready s i \<or> retirable s i \<or> blocked s i"
  by (auto simp: blocked_def)

lemma DequeueTask_from_skip:
  "aligned s \<Longrightarrow> k \<le> length (tasks s) \<Longrightarrow> i \<le> k \<Longrightarrow>
   (\<forall>j. i \<le> j \<and> j < k \<longrightarrow> blocked s j) \<Longrightarrow>
   DequeueTask_from i out l s = DequeueTask_from k out l s"
proof (induction "k - i" arbitrary: i)
  case 0
  then show ?case by simp
next
  case (Suc n)
  then have "i < length (tasks s)" "blocked s i" by auto
  with Suc.prems have "DequeueTask_from i out l s = DequeueTask_from (i + 1) out l s"
    by (intro DequeueTask_from_blocked)
  also have "\<dots> = DequeueTask_from k out l s"
    using Suc by (intro Suc.hyps(1)) auto
  finally show ?case .
qed

lemma DequeueTask_from_invariants:
  "DequeueTask_from i out l s = Inr (out', s') \<Longrightarrow>
     (aligned s \<longrightarrow> aligned s') \<and> (tasks_counted s \<longrightarrow> tasks_counted s')"
proof (induction i out l s rule: DequeueTask_from.induct)
  case (1 i out l s)
  note eq = "1.prems" [unfolded DequeueTask_from.simps [of i out l s]]
  show ?case
  proof (cases "i < length (tasks s)")
    case False
    with eq show ?thesis by simp
  next
    case lt: True
    show ?thesis
    proof (cases "tasks s ! i = []")
      case ne: False
      show ?thesis
      proof (cases "query_subtree_locks s ! i")
        case True
        with eq lt ne have "DequeueTask_from (i + 1) out l s = Inr (out', s')"
          by (simp split: if_splits)
        with "1.IH"(1) [OF lt] ne eq lt True show ?thesis
          by (auto split: if_splits)
      next
        case False
        with eq lt ne have s': "s' = s\<lparr> tasks := (tasks s)[i := tl (tasks s ! i)],
             query_subtree_locks := (query_subtree_locks s)[i := l],
             num_remaining_tasks := num_remaining_tasks s - 1 \<rparr>"
          by (simp split: if_splits)
        show ?thesis
          unfolding s' using dequeue_pop_counted [OF lt ne] by (auto simp: aligned_def)
      qed
    next
      case em: True
      from eq lt em have r: "i < length (remaining_work_for_query_subtrees s)"
        by (simp split: if_splits)
      show ?thesis
      proof (cases "remaining_work_for_query_subtrees s ! i = 0")
        case True
        with eq lt em r have rng: "i < length (assigned_work s) \<and> i < length (query_subtrees s)
                   \<and> i < length (query_subtree_locks s)"
          by (simp split: if_splits)
        with eq lt em r True have "DequeueTask_from i out l (retire i s) = Inr (out', s')"
          by simp
        with "1.IH"(2) [OF lt _ _ True] em r rng
        have "(aligned (retire i s) \<longrightarrow> aligned s') \<and> (tasks_counted (retire i s) \<longrightarrow> tasks_counted s')"
          by simp
        with retire_aligned [of s i] retire_counted [OF lt em] show ?thesis by blast
      next
        case False
        with eq lt em r have "DequeueTask_from (i + 1) out l s = Inr (out', s')"
          by simp
        with "1.IH"(3) [OF lt _ _ False] em r show ?thesis by simp
      qed
    qed
  qed
qed

lemma DequeueTask_from_total:
  "aligned s \<Longrightarrow> \<exists>r. DequeueTask_from i out l s = Inr r"
proof (induction i out l s rule: DequeueTask_from.induct)
  case (1 i out l s)
  show ?case
  proof (cases "i < length (tasks s)")
    case False
    then show ?thesis by (simp add: DequeueTask_from_end)
  next
    case lt: True
    from "1.prems" lt have rng: "i < length (query_subtree_locks s)"
      "i < length (remaining_work_for_query_subtrees s)"
      "i < length (assigned_work s) \<and> i < length (query_subtrees s) \<and> i < length (query_subtree_locks s)"
      by (auto simp: aligned_def)
    consider "ready s i" | "retirable s i" | "blocked s i"
      using slot_cases by blast
    then show ?thesis
    proof cases
      case 1
      with lt rng show ?thesis by (simp add: DequeueTask_from_ready)
    next
      case 2
      then have c: "\<not> 0 < length (tasks s ! i)" "remaining_work_for_query_subtrees s ! i = 0"
        by (simp_all add: retirable_def)
      from "1.IH"(2) [OF lt c(1) _ c(2)] rng retire_aligned [OF "1.prems"]
      have "\<exists>r. DequeueTask_from i out l (retire i s) = Inr r" by simp
      with 2 lt "1.prems" show ?thesis by (simp add: DequeueTask_from_retirable)
    next
      case 3
      have "\<exists>r. DequeueTask_from (i + 1) out l s = Inr r"
      proof (cases "tasks s ! i = []")
        case True
        with 3 have "remaining_work_for_query_subtrees s ! i \<noteq> 0"
          by (simp add: blocked_def retirable_def)
        with "1.IH"(3) [OF lt] True rng "1.prems" show ?thesis by simp
      next
        case False
        with 3 have "query_subtree_locks s ! i"
          by (simp add: blocked_def ready_def)
        with "1.IH"(1) [OF lt] False rng "1.prems" show ?thesis by simp
      qed
      with 3 lt "1.prems" show ?thesis by (simp add: DequeueTask_from_blocked)
    qed
  qed
qed


lemma retires_from_mono: "retires_from k s s1 \<Longrightarrow> i \<le> k \<Longrightarrow> retires_from i s s1"
proof (induction rule: retires_from.induct)
  case (retires_none i s)
  show ?case by (rule retires_from.retires_none)
next
  case (retires_step j k s s1)
  from retires_step.prems retires_step.hyps(1) have "i \<le> k" by simp
  from this retires_step.hyps(2,3,4) show ?case
    by (rule retires_from.retires_step)
qed

lemma take_swap_pop: "i \<le> k \<Longrightarrow> k < length xs \<Longrightarrow> take i (swap_pop k xs) = take i xs"
  by (simp add: swap_pop_def take_butlast)

lemma retires_from_prefix:
  "retires_from i s s1 \<Longrightarrow> aligned s \<Longrightarrow> i \<le> length (tasks s) \<Longrightarrow>
     aligned s1 \<and> i \<le> length (tasks s1) \<and> take i (slots s1) = take i (slots s)
     \<and> num_remaining_tasks s1 = num_remaining_tasks s"
proof (induction rule: retires_from.induct)
  case (retires_none i s)
  then show ?case by simp
next
  case (retires_step i k s s1)
  from retires_step.prems(1) have al: "aligned (retire k s)"
    by (rule retire_aligned)
  from retires_step.hyps(2) have len: "k \<le> length (tasks (retire k s))"
    by (simp add: retire_def)
  from retires_step.IH [OF al len]
  have ih: "aligned s1" "k \<le> length (tasks s1)" "take k (slots s1) = take k (slots (retire k s))"
    "num_remaining_tasks s1 = num_remaining_tasks (retire k s)"
    by simp_all
  from retires_step.prems(1) retires_step.hyps(2) have ks: "k < length (slots s)"
    by (simp add: length_slots aligned_def)
  have "take i (slots s1) = take i (take k (slots s1))"
    using retires_step.hyps(1) by (simp add: min_def)
  also have "\<dots> = take i (take k (slots (retire k s)))"
    by (simp only: ih(3))
  also have "\<dots> = take i (slots (retire k s))"
    using retires_step.hyps(1) by (simp add: min_def)
  also have "\<dots> = take i (slots s)"
    using retires_step.prems(1) retires_step.hyps(1) ks
    by (simp add: retire_slots take_swap_pop)
  finally show ?case
    using ih retires_step.hyps(1) by (simp add: retire_def)
qed

lemma blocked_prefix:
  assumes "aligned s" "aligned s1" "take (Suc i) (slots s1) = take (Suc i) (slots s)"
    "i < length (tasks s)" "i < length (tasks s1)"
  shows "blocked s1 i = blocked s i"
proof -
  from assms(1,4) have a: "i < length (query_subtrees s)" by (simp add: aligned_def)
  from assms(2,5) have b: "i < length (query_subtrees s1)" by (simp add: aligned_def)
  have "slots s1 ! i = take (Suc i) (slots s1) ! i" by simp
  also have "\<dots> = take (Suc i) (slots s) ! i" by (simp only: assms(3))
  also have "\<dots> = slots s ! i" by simp
  finally have "slots s1 ! i = slots s ! i" .
  with nth_slots [OF assms(1) a] nth_slots [OF assms(2) b] show ?thesis
    by (simp add: blocked_def ready_def retirable_def)
qed

lemma DequeueTask_from_post:
  "aligned s \<Longrightarrow> i \<le> length (tasks s) \<Longrightarrow>
   \<exists>s1. retires_from i s s1
     \<and> ((\<forall>j. i \<le> j \<and> j < length (tasks s1) \<longrightarrow> blocked s1 j)
          \<and> DequeueTask_from i out l s = Inr (out, s1)
        \<or> (\<exists>k. i \<le> k \<and> k < length (tasks s1) \<and> (\<forall>j. i \<le> j \<and> j < k \<longrightarrow> blocked s1 j)
              \<and> ready s1 k
              \<and> DequeueTask_from i out l s =
                  Inr ((hd (tasks s1 ! k), int k),
                       s1\<lparr> tasks := (tasks s1)[k := tl (tasks s1 ! k)],
                           query_subtree_locks := (query_subtree_locks s1)[k := l],
                           num_remaining_tasks := num_remaining_tasks s1 - 1 \<rparr>)))"
proof (induction i out l s rule: DequeueTask_from.induct)
  case (1 i out l s)
  let ?P = "\<lambda>i s s1. retires_from i s s1
     \<and> ((\<forall>j. i \<le> j \<and> j < length (tasks s1) \<longrightarrow> blocked s1 j)
          \<and> DequeueTask_from i out l s = Inr (out, s1)
        \<or> (\<exists>k. i \<le> k \<and> k < length (tasks s1) \<and> (\<forall>j. i \<le> j \<and> j < k \<longrightarrow> blocked s1 j)
              \<and> ready s1 k
              \<and> DequeueTask_from i out l s =
                  Inr ((hd (tasks s1 ! k), int k),
                       s1\<lparr> tasks := (tasks s1)[k := tl (tasks s1 ! k)],
                           query_subtree_locks := (query_subtree_locks s1)[k := l],
                           num_remaining_tasks := num_remaining_tasks s1 - 1 \<rparr>)))"
  show ?case
  proof (cases "i < length (tasks s)")
    case False
    then have "?P i s s"
      by (auto simp: DequeueTask_from_end retires_none)
    then show ?thesis ..
  next
    case lt: True
    from "1.prems" lt have rng: "i < length (query_subtree_locks s)"
      "i < length (remaining_work_for_query_subtrees s)"
      "i < length (assigned_work s) \<and> i < length (query_subtrees s) \<and> i < length (query_subtree_locks s)"
      by (auto simp: aligned_def)
    consider "ready s i" | "retirable s i" | "blocked s i"
      using slot_cases by blast
    then show ?thesis
    proof cases
      case 1
      with lt rng have "?P i s s"
        by (auto simp: DequeueTask_from_ready retires_none)
      then show ?thesis ..
    next
      case 2
      then have c: "\<not> 0 < length (tasks s ! i)" "remaining_work_for_query_subtrees s ! i = 0"
        by (simp_all add: retirable_def)
      have al: "aligned (retire i s)"
        using "1.prems"(1) by (rule retire_aligned)
      have le: "i \<le> length (tasks (retire i s))"
        using lt by (simp add: retire_def)
      from "1.IH"(2) [OF lt c(1) _ c(2) _ al le] rng
      obtain s1 where s1: "?P i (retire i s) s1"
        by auto
      have eq: "DequeueTask_from i out l s = DequeueTask_from i out l (retire i s)"
        using "1.prems"(1) lt 2 by (rule DequeueTask_from_retirable)
      have "retires_from i s s1"
        by (rule retires_step [OF le_refl lt 2 s1 [THEN conjunct1]])
      with s1 [THEN conjunct2] have "?P i s s1"
        by (simp only: eq) 
      then show ?thesis ..
    next
      case 3
      have le: "i + 1 \<le> length (tasks s)"
        using lt by simp
      have "\<exists>s1. ?P (i + 1) s s1"
      proof (cases "tasks s ! i = []")
        case True
        with 3 have "remaining_work_for_query_subtrees s ! i \<noteq> 0"
          by (simp add: blocked_def retirable_def)
        with "1.IH"(3) [OF lt _ _ _ "1.prems"(1) le] True rng show ?thesis by simp
      next
        case False
        with 3 have "query_subtree_locks s ! i"
          by (simp add: blocked_def ready_def)
        with "1.IH"(1) [OF lt _ _ _ "1.prems"(1) le] False rng show ?thesis by simp
      qed
      then obtain s1 where s1: "?P (i + 1) s s1" ..
      note r = s1 [THEN conjunct1]
      from retires_from_prefix [OF r "1.prems"(1) le]
      have pre: "aligned s1" "i + 1 \<le> length (tasks s1)"
        "take (Suc i) (slots s1) = take (Suc i) (slots s)"
        by simp_all
      have b: "blocked s1 i"
        using blocked_prefix [OF "1.prems"(1) pre(1,3) lt] pre(2) 3 by simp
      have eq: "DequeueTask_from i out l s = DequeueTask_from (i + 1) out l s"
        using "1.prems"(1) lt 3 by (rule DequeueTask_from_blocked)
      have all: "\<forall>j. i \<le> j \<and> j < n \<longrightarrow> blocked s1 j"
        if "\<forall>j. i + 1 \<le> j \<and> j < n \<longrightarrow> blocked s1 j" for n
      proof (intro allI impI)
        fix j assume j: "i \<le> j \<and> j < n"
        show "blocked s1 j"
        proof (cases "j = i")
          case True
          with b show ?thesis by simp
        next
          case False
          with j have "i + 1 \<le> j \<and> j < n" by simp
          with that show ?thesis by blast
        qed
      qed
      have ri: "retires_from i s s1"
        using r by (rule retires_from_mono) simp
      from s1 [THEN conjunct2] show ?thesis
      proof
        assume a: "(\<forall>j. i + 1 \<le> j \<and> j < length (tasks s1) \<longrightarrow> blocked s1 j)
            \<and> DequeueTask_from (i + 1) out l s = Inr (out, s1)"
        then have "(\<forall>j. i \<le> j \<and> j < length (tasks s1) \<longrightarrow> blocked s1 j)
            \<and> DequeueTask_from i out l s = Inr (out, s1)"
          using all [of "length (tasks s1)"] unfolding eq by blast
        with ri have "?P i s s1" by blast
        then show ?thesis ..
      next
        assume "\<exists>k. i + 1 \<le> k \<and> k < length (tasks s1)
              \<and> (\<forall>j. i + 1 \<le> j \<and> j < k \<longrightarrow> blocked s1 j)
              \<and> ready s1 k
              \<and> DequeueTask_from (i + 1) out l s =
                  Inr ((hd (tasks s1 ! k), int k),
                       s1\<lparr> tasks := (tasks s1)[k := tl (tasks s1 ! k)],
                           query_subtree_locks := (query_subtree_locks s1)[k := l],
                           num_remaining_tasks := num_remaining_tasks s1 - 1 \<rparr>)"
        then obtain k where k: "i + 1 \<le> k" "k < length (tasks s1)"
              "\<forall>j. i + 1 \<le> j \<and> j < k \<longrightarrow> blocked s1 j"
              "ready s1 k"
              "DequeueTask_from (i + 1) out l s =
                  Inr ((hd (tasks s1 ! k), int k),
                       s1\<lparr> tasks := (tasks s1)[k := tl (tasks s1 ! k)],
                           query_subtree_locks := (query_subtree_locks s1)[k := l],
                           num_remaining_tasks := num_remaining_tasks s1 - 1 \<rparr>)"
          by blast
        from k(1) have ik: "i \<le> k" by simp
        from ik k(2) all [OF k(3)] k(4) k(5) [folded eq]
        have "\<exists>k. i \<le> k \<and> k < length (tasks s1) \<and> (\<forall>j. i \<le> j \<and> j < k \<longrightarrow> blocked s1 j)
              \<and> ready s1 k
              \<and> DequeueTask_from i out l s =
                  Inr ((hd (tasks s1 ! k), int k),
                       s1\<lparr> tasks := (tasks s1)[k := tl (tasks s1 ! k)],
                           query_subtree_locks := (query_subtree_locks s1)[k := l],
                           num_remaining_tasks := num_remaining_tasks s1 - 1 \<rparr>)"
          by blast
        with ri have "?P i s s1" by blast
        then show ?thesis ..
      qed
    qed
  qed
qed

text \<open>
  C1.  On a task queue whose vectors are aligned, the untargeted \<^verbatim>\<open>DequeueTask\<close> passes
  over the slots in ascending order.  At the first slot \<open>k\<close> that is ready (its heap is
  not empty and its lock is not set), all slots before it being blocked, it returns the
  top task of that heap together with \<open>k\<close>, pops the task, sets the lock of \<open>k\<close> to the
  argument and decrements the number of tasks.  At the first slot \<open>i\<close> that is retirable
  (its heap is empty and its remaining work is zero) it retires the slot: in all five
  vectors the last entry is copied into slot \<open>i\<close> and the vector loses its last entry, and
  the scan goes on at slot \<open>i\<close> again.  When every slot is blocked it returns the
  out-parameter and the task queue as they were.  It always returns, and what it returns
  is this: after some retirements of retirable slots, either every slot is blocked and no
  task is produced, or the top task of the first slot that is not blocked is popped.
\<close>

theorem untargeted_dequeue:
  assumes "aligned s"
  shows
    "(\<forall>k. k < length (tasks s) \<and> (\<forall>j < k. blocked s j) \<and> ready s k \<longrightarrow>
        DequeueTask task_out lock_query_subtree_in s =
          Inr ((hd (tasks s ! k), int k),
               s\<lparr> tasks := (tasks s)[k := tl (tasks s ! k)],
                  query_subtree_locks := (query_subtree_locks s)[k := lock_query_subtree_in],
                  num_remaining_tasks := num_remaining_tasks s - 1 \<rparr>))
     \<and> (\<forall>i. i < length (tasks s) \<and> (\<forall>j < i. blocked s j) \<and> retirable s i \<longrightarrow>
        DequeueTask task_out lock_query_subtree_in s =
          DequeueTask_from i task_out lock_query_subtree_in (retire i s)
        \<and> slots (retire i s) = butlast ((slots s)[i := last (slots s)])
        \<and> aligned (retire i s)
        \<and> length (tasks (retire i s)) = length (tasks s) - 1)
     \<and> ((\<forall>j < length (tasks s). blocked s j) \<longrightarrow>
        DequeueTask task_out lock_query_subtree_in s = Inr (task_out, s))
     \<and> (\<exists>s1. retires_from 0 s s1
          \<and> ((\<forall>j < length (tasks s1). blocked s1 j)
               \<and> DequeueTask task_out lock_query_subtree_in s = Inr (task_out, s1)
             \<or> (\<exists>k < length (tasks s1). (\<forall>j < k. blocked s1 j) \<and> ready s1 k
                  \<and> DequeueTask task_out lock_query_subtree_in s =
                      Inr ((hd (tasks s1 ! k), int k),
                           s1\<lparr> tasks := (tasks s1)[k := tl (tasks s1 ! k)],
                               query_subtree_locks :=
                                 (query_subtree_locks s1)[k := lock_query_subtree_in],
                               num_remaining_tasks := num_remaining_tasks s1 - 1 \<rparr>))))"
proof (intro conjI allI impI)
  fix k
  assume a: "k < length (tasks s) \<and> (\<forall>j < k. blocked s j) \<and> ready s k"
  with assms have "DequeueTask task_out lock_query_subtree_in s
      = DequeueTask_from k task_out lock_query_subtree_in s"
    unfolding DequeueTask_def by (intro DequeueTask_from_skip) auto
  also have "\<dots> = Inr ((hd (tasks s ! k), int k),
               s\<lparr> tasks := (tasks s)[k := tl (tasks s ! k)],
                  query_subtree_locks := (query_subtree_locks s)[k := lock_query_subtree_in],
                  num_remaining_tasks := num_remaining_tasks s - 1 \<rparr>)"
    using a assms by (intro DequeueTask_from_ready) (auto simp: aligned_def)
  finally show "DequeueTask task_out lock_query_subtree_in s =
          Inr ((hd (tasks s ! k), int k),
               s\<lparr> tasks := (tasks s)[k := tl (tasks s ! k)],
                  query_subtree_locks := (query_subtree_locks s)[k := lock_query_subtree_in],
                  num_remaining_tasks := num_remaining_tasks s - 1 \<rparr>)" .
next
  fix i
  assume a: "i < length (tasks s) \<and> (\<forall>j < i. blocked s j) \<and> retirable s i"
  with assms have "DequeueTask task_out lock_query_subtree_in s
      = DequeueTask_from i task_out lock_query_subtree_in s"
    unfolding DequeueTask_def by (intro DequeueTask_from_skip) auto
  also have "\<dots> = DequeueTask_from i task_out lock_query_subtree_in (retire i s)"
    using a assms by (intro DequeueTask_from_retirable) auto
  finally show "DequeueTask task_out lock_query_subtree_in s =
          DequeueTask_from i task_out lock_query_subtree_in (retire i s)" .
  show "slots (retire i s) = butlast ((slots s)[i := last (slots s)])"
    using assms by (simp add: retire_slots swap_pop_def)
  show "aligned (retire i s)"
    using assms by (rule retire_aligned)
  show "length (tasks (retire i s)) = length (tasks s) - 1"
    by (simp add: retire_def)
next
  assume a: "\<forall>j < length (tasks s). blocked s j"
  with assms have "DequeueTask task_out lock_query_subtree_in s
      = DequeueTask_from (length (tasks s)) task_out lock_query_subtree_in s"
    unfolding DequeueTask_def by (intro DequeueTask_from_skip) auto
  then show "DequeueTask task_out lock_query_subtree_in s = Inr (task_out, s)"
    by (simp add: DequeueTask_from_end)
next
  from DequeueTask_from_post [OF assms, of 0 task_out lock_query_subtree_in]
  show "\<exists>s1. retires_from 0 s s1
          \<and> ((\<forall>j < length (tasks s1). blocked s1 j)
               \<and> DequeueTask task_out lock_query_subtree_in s = Inr (task_out, s1)
             \<or> (\<exists>k < length (tasks s1). (\<forall>j < k. blocked s1 j) \<and> ready s1 k
                  \<and> DequeueTask task_out lock_query_subtree_in s =
                      Inr ((hd (tasks s1 ! k), int k),
                           s1\<lparr> tasks := (tasks s1)[k := tl (tasks s1 ! k)],
                               query_subtree_locks :=
                                 (query_subtree_locks s1)[k := lock_query_subtree_in],
                               num_remaining_tasks := num_remaining_tasks s1 - 1 \<rparr>)))"
    unfolding DequeueTask_def by simp
qed

theorem untargeted_dequeue_witness:
  "aligned demo_scan \<and> blocked demo_scan 0 \<and> retirable demo_scan 1
   \<and> DequeueTask (default_task demo_env, 0) True demo_scan =
       Inr ((make_task demo_env 5 (71, 72, 7), 1),
            demo_scan\<lparr> query_subtrees := [1, 5],
                        assigned_work := [[(1, 0, 50)], [(1, 0, 50)]],
                        remaining_work_for_query_subtrees := [200, 200],
                        query_subtree_locks := [True, True],
                        tasks := [[make_task demo_env 1 (71, 72, 7)], []],
                        num_remaining_tasks := 1 \<rparr>)"
proof -
  have al: "aligned demo_scan"
    by (simp add: aligned_def demo_scan_def)
  have b0: "blocked demo_scan 0" and r1: "retirable demo_scan 1"
    by (simp_all add: blocked_def ready_def retirable_def demo_scan_def)
  have "\<forall>j < 1. blocked demo_scan j"
    using b0 by simp
  with untargeted_dequeue [OF al, of "(default_task demo_env, 0)" True] r1
  have "DequeueTask (default_task demo_env, 0) True demo_scan =
          DequeueTask_from 1 (default_task demo_env, 0) True (retire 1 demo_scan)"
    by (simp add: demo_scan_def)
  also have "\<dots> = Inr ((make_task demo_env 5 (71, 72, 7), 1),
            demo_scan\<lparr> query_subtrees := [1, 5],
                        assigned_work := [[(1, 0, 50)], [(1, 0, 50)]],
                        remaining_work_for_query_subtrees := [200, 200],
                        query_subtree_locks := [True, True],
                        tasks := [[make_task demo_env 1 (71, 72, 7)], []],
                        num_remaining_tasks := 1 \<rparr>)"
    by (simp add: DequeueTask_from.simps retire_def swap_pop_def demo_scan_def)
  finally show ?thesis
    using al b0 r1 by simp
qed

subsection \<open>Splitting a query subtree\<close>

lemma and_then_Inr [simp]: "and_then (Inr x) f = f x"
  by (simp add: and_then_def)

lemma and_then_Inl [simp]: "and_then (Inl x) f = Inl x"
  by (simp add: and_then_def)

lemma and_then_eq_Inr:
  "and_then r f = Inr y \<longleftrightarrow> (\<exists>x. r = Inr x \<and> f x = Inr y)"
  by (cases r) auto

lemma PushTask_ok:
  "in_range (query_subtrees s) i \<Longrightarrow> query_subtrees s ! nat i \<noteq> NULL \<Longrightarrow> fst (snd p) \<noteq> NULL \<Longrightarrow>
   in_range (tasks s) i \<Longrightarrow>
   PushTask e i p s =
     Inr (s\<lparr> tasks := (tasks s)[nat i := heap_push (make_task e (query_subtrees s ! nat i) p)
                                              (tasks s ! nat i)],
             num_remaining_tasks := num_remaining_tasks s + 1 \<rparr>)"
  by (simp add: PushTask_def Let_def)

lemma PushTask_frame:
  assumes "PushTask e i p s = Inr s'"
  shows "query_subtrees s' = query_subtrees s" "assigned_work s' = assigned_work s"
    "remaining_work_for_query_subtrees s' = remaining_work_for_query_subtrees s"
    "query_subtree_locks s' = query_subtree_locks s" "length (tasks s') = length (tasks s)"
    "table_exchange s' = table_exchange s"
    "split_subtree_after_unlocking s' = split_subtree_after_unlocking s"
  using assms by (auto simp: PushTask_Inr)

lemma PushTask_counted:
  assumes "PushTask e i p s = Inr s'" "tasks_counted s"
  shows "tasks_counted s'"
  using assms by (auto simp: PushTask_Inr tasks_counted_def in_range_def sum_list_heap_update)

lemma PushTask_aligned:
  assumes "PushTask e i p s = Inr s'" "aligned s"
  shows "aligned s'"
  using assms by (auto simp: PushTask_Inr aligned_def)

lemma update2_twice:
  "p \<noteq> l \<Longrightarrow> xs[p := a, l := b, p := c, l := d] = xs[p := c, l := d]"
  by (simp add: list_update_swap [of l p])

lemma update2_same:
  "p \<noteq> l \<Longrightarrow> xs[p := a, p := c, l := b, l := d] = xs[p := c, l := d]"
  by simp

lemma reemit_step:
  assumes p: "0 \<le> p" "nat p < length (query_subtrees s) - 1"
    and len: "length (tasks s) = length (query_subtrees s)"
    and nn: "query_subtrees s ! nat p \<noteq> NULL" "query_subtrees s ! (length (query_subtrees s) - 1) \<noteq> NULL"
    and t: "reference_start_node t \<noteq> NULL"
      "self_pair e T t \<longrightarrow> node_left e (reference_start_node t) \<noteq> NULL
          \<and> node_right e (reference_start_node t) \<noteq> NULL"
  shows "reemit e T p (t # ts) s =
     reemit e T p ts
       (s\<lparr> tasks := (tasks s)
               [nat p := fold heap_push (reissued e T (query_subtrees s ! nat p) t) (tasks s ! nat p),
                length (query_subtrees s) - 1 :=
                  fold heap_push (reissued e T (query_subtrees s ! (length (query_subtrees s) - 1)) t)
                    (tasks s ! (length (query_subtrees s) - 1))],
           num_remaining_tasks := num_remaining_tasks s
              + int (length (reissued e T (query_subtrees s ! nat p) t))
              + int (length (reissued e T (query_subtrees s ! (length (query_subtrees s) - 1)) t)),
           table_exchange := table_exchange s @ [relock e T t] \<rparr>)"
proof -
  let ?l = "length (query_subtrees s) - 1"
  have l: "int (length (query_subtrees s)) - 1 = int ?l" "nat (int ?l) = ?l" "nat p \<noteq> ?l"
    "nat p < length (query_subtrees s)" "?l < length (query_subtrees s)"
    using p by auto
  have rng: "\<And>xs :: task list list. length xs = length (query_subtrees s) \<Longrightarrow> in_range xs p"
    "\<And>xs :: task list list. length xs = length (query_subtrees s) \<Longrightarrow> in_range xs (int ?l)"
    "in_range (query_subtrees s) p" "in_range (query_subtrees s) (int ?l)"
    using p by (auto simp: in_range_def)
  show ?thesis
  proof (cases "self_pair e T t")
    case True
    with t have ch: "node_left e (reference_start_node t) \<noteq> NULL"
      "node_right e (reference_start_node t) \<noteq> NULL" by auto
    from True have c: "(\<not> node_is_leaf e (reference_start_node t) \<and> T = reference_start_node t) = True"
      by (simp add: self_pair_def)
    show ?thesis
      using t(1) ch nn len l rng True
      by (simp add: c PushTask_ok Let_def reissued_def relock_def update2_same nth_list_update)
  next
    case False
    then have c: "(\<not> node_is_leaf e (reference_start_node t) \<and> T = reference_start_node t) = False"
      by (simp add: self_pair_def)
    show ?thesis
      using t(1) nn len l rng False
      by (simp add: c PushTask_ok Let_def reissued_def relock_def nth_list_update)
  qed
qed


lemma reemit_result:
  assumes p: "0 \<le> p" "nat p < length (query_subtrees s) - 1"
    and len: "length (tasks s) = length (query_subtrees s)"
    and nn: "query_subtrees s ! nat p \<noteq> NULL" "query_subtrees s ! (length (query_subtrees s) - 1) \<noteq> NULL"
    and ts: "\<forall>t \<in> set ts. reference_start_node t \<noteq> NULL
       \<and> (self_pair e T t \<longrightarrow> node_left e (reference_start_node t) \<noteq> NULL
             \<and> node_right e (reference_start_node t) \<noteq> NULL)"
  shows "reemit e T p ts s =
     Inr (s\<lparr> tasks := (tasks s)
               [nat p := fold heap_push (concat (map (reissued e T (query_subtrees s ! nat p)) ts))
                           (tasks s ! nat p),
                length (query_subtrees s) - 1 :=
                  fold heap_push
                    (concat (map (reissued e T (query_subtrees s ! (length (query_subtrees s) - 1))) ts))
                    (tasks s ! (length (query_subtrees s) - 1))],
           num_remaining_tasks := num_remaining_tasks s
              + int (length (concat (map (reissued e T (query_subtrees s ! nat p)) ts)))
              + int (length (concat (map (reissued e T
                       (query_subtrees s ! (length (query_subtrees s) - 1))) ts))),
           table_exchange := table_exchange s @ map (relock e T) ts \<rparr>)"
  using p len nn ts
proof (induction ts arbitrary: s)
  case Nil
  then show ?case by simp
next
  case (Cons t ts)
  let ?l = "length (query_subtrees s) - 1"
  let ?L = "query_subtrees s ! nat p"
  let ?R = "query_subtrees s ! ?l"
  let ?st = "s\<lparr> tasks := (tasks s)
               [nat p := fold heap_push (reissued e T ?L t) (tasks s ! nat p),
                ?l := fold heap_push (reissued e T ?R t) (tasks s ! ?l)],
           num_remaining_tasks := num_remaining_tasks s
              + int (length (reissued e T ?L t)) + int (length (reissued e T ?R t)),
           table_exchange := table_exchange s @ [relock e T t] \<rparr>"
  have step: "reemit e T p (t # ts) s = reemit e T p ts ?st"
    using Cons.prems by (intro reemit_step) auto
  have idx: "nat p \<noteq> ?l" "nat p < length (tasks s)" "?l < length (tasks s)"
    using Cons.prems by auto
  have ih: "reemit e T p ts ?st =
     Inr (?st\<lparr> tasks := (tasks ?st)
               [nat p := fold heap_push (concat (map (reissued e T (query_subtrees ?st ! nat p)) ts))
                           (tasks ?st ! nat p),
                length (query_subtrees ?st) - 1 :=
                  fold heap_push
                    (concat (map (reissued e T (query_subtrees ?st ! (length (query_subtrees ?st) - 1))) ts))
                    (tasks ?st ! (length (query_subtrees ?st) - 1))],
           num_remaining_tasks := num_remaining_tasks ?st
              + int (length (concat (map (reissued e T (query_subtrees ?st ! nat p)) ts)))
              + int (length (concat (map (reissued e T
                       (query_subtrees ?st ! (length (query_subtrees ?st) - 1))) ts))),
           table_exchange := table_exchange ?st @ map (relock e T) ts \<rparr>)"
    using Cons.prems by (intro Cons.IH) auto
  show ?case
    unfolding step ih using idx
    by (simp add: update2_twice nth_list_update)
qed


lemma update_snoc2:
  "i < length xs \<Longrightarrow> n = length xs \<Longrightarrow> (xs[i := a] @ [b])[i := c, n := d] = xs[i := c] @ [d]"
  by (simp add: list_update_append)

lemma split_subtree_unlocked:
  assumes al: "aligned s"
    and p: "in_range (query_subtrees s) p"
    and nn: "query_subtrees s ! nat p \<noteq> NULL"
      "node_left e (query_subtrees s ! nat p) \<noteq> NULL"
      "node_right e (query_subtrees s ! nat p) \<noteq> NULL"
    and unlocked: "\<not> query_subtree_locks s ! nat p"
    and refs: "\<forall>t \<in> set (tasks s ! nat p). reference_start_node t \<noteq> NULL"
  shows "split_subtree e p s =
     (let T = query_subtrees s ! nat p;
          L = node_left e T;
          R = node_right e T;
          drained = tasks s ! nat p
      in Some (Inr (s\<lparr>
           query_subtrees := (query_subtrees s)[nat p := L] @ [R],
           query_subtree_locks := query_subtree_locks s @ [False],
           tasks := (tasks s)[nat p := fold heap_push (concat (map (reissued e T L) drained)) []]
                    @ [fold heap_push (concat (map (reissued e T R) drained)) []],
           assigned_work := assigned_work s @ [assigned_work s ! nat p],
           remaining_work_for_query_subtrees :=
             remaining_work_for_query_subtrees s @ [remaining_work_for_query_subtrees s ! nat p],
           num_remaining_tasks := num_remaining_tasks s - int (length drained)
             + int (length (concat (map (reissued e T L) drained)))
             + int (length (concat (map (reissued e T R) drained))),
           table_exchange := table_exchange s @ map (relock e T) drained \<rparr>)))"
proof -
  let ?n = "length (query_subtrees s)"
  let ?T = "query_subtrees s ! nat p"
  let ?L = "node_left e ?T"
  let ?R = "node_right e ?T"
  let ?d = "tasks s ! nat p"
  from p have p0: "0 \<le> p" and pn: "nat p < ?n"
    by (auto simp: in_range_def)
  from al have lens: "length (assigned_work s) = ?n"
    "length (remaining_work_for_query_subtrees s) = ?n"
    "length (query_subtree_locks s) = ?n" "length (tasks s) = ?n"
    by (simp_all add: aligned_def)
  let ?s1 = "s\<lparr> query_subtrees := (query_subtrees s)[nat p := ?L] @ [?R],
                query_subtree_locks := query_subtree_locks s @ [False] \<rparr>"
  let ?s2 = "?s1\<lparr> tasks := (tasks ?s1)[nat p := []],
                  num_remaining_tasks := num_remaining_tasks ?s1 - int (length (tasks ?s1 ! nat p)) \<rparr>"
  have dr: "drain e p [] ?s1 = Some (Inr ([] @ tasks ?s1 ! nat p, ?s2))"
    using p0 pn lens unlocked
    by (intro drain_unlocked [OF _ refl]) (auto simp: in_range_def nth_append)
  let ?s3 = "?s2\<lparr> tasks := tasks ?s2 @ [[]],
                  assigned_work := assigned_work ?s2 @ [assigned_work ?s2 ! nat p],
                  remaining_work_for_query_subtrees :=
                    remaining_work_for_query_subtrees ?s2
                    @ [remaining_work_for_query_subtrees ?s2 ! nat p] \<rparr>"
  have sp: "self_pair e ?T t \<Longrightarrow> node_left e (reference_start_node t) \<noteq> NULL
             \<and> node_right e (reference_start_node t) \<noteq> NULL" for t
    using nn by (auto simp: self_pair_def)
  have re: "reemit e ?T p ?d ?s3 =
     Inr (?s3\<lparr> tasks := (tasks ?s3)
               [nat p := fold heap_push (concat (map (reissued e ?T (query_subtrees ?s3 ! nat p)) ?d))
                           (tasks ?s3 ! nat p),
                length (query_subtrees ?s3) - 1 :=
                  fold heap_push
                    (concat (map (reissued e ?T (query_subtrees ?s3 ! (length (query_subtrees ?s3) - 1))) ?d))
                    (tasks ?s3 ! (length (query_subtrees ?s3) - 1))],
           num_remaining_tasks := num_remaining_tasks ?s3
              + int (length (concat (map (reissued e ?T (query_subtrees ?s3 ! nat p)) ?d)))
              + int (length (concat (map (reissued e ?T
                       (query_subtrees ?s3 ! (length (query_subtrees ?s3) - 1))) ?d))),
           table_exchange := table_exchange ?s3 @ map (relock e ?T) ?d \<rparr>)"
    using p0 pn lens nn refs sp
    by (intro reemit_result) (auto simp: nth_append)
  have rng: "in_range (assigned_work ?s2) p" "in_range (remaining_work_for_query_subtrees ?s2) p"
    "in_range (query_subtrees s) p"
    using p0 pn lens by (auto simp: in_range_def)
  have "split_subtree e p s = Some (reemit e ?T p ?d ?s3)"
    unfolding split_subtree_def using rng nn(1) dr
    by (simp add: Let_def)
  also note re
  finally show ?thesis
    using pn lens by (simp add: Let_def nth_append update_snoc2)
qed

lemma demo_total_entries: "total_entries 2 (\<lambda>i. 100) = 200"
  by (simp add: total_entries_def numeral_2_eq_2)

lemma demo_generate:
  "GenerateTasks demo_env [(0, 0, 100, 5), (1, 0, 50, 7)]
     (Init demo_env 2 (\<lambda>i. 100) (\<lambda>i. 100) 100 2 constructor) = Inr demo_loaded"
  by (simp add: GenerateTasks_one_def GenerateTasks_inner.simps Init_def constructor_def
      demo_env_def demo_loaded_def Let_def Insert_def covered_def PushTask_def in_range_def
      make_task_def demo_total_entries)



subsection \<open>Choosing the subtree to split\<close>

lemma find_split_index_end:
  "\<not> i < length (query_subtrees s) \<Longrightarrow> find_split_index e i acc s = Inr acc"
  by (subst find_split_index.simps) simp

lemma find_split_index_step:
  "aligned s \<Longrightarrow> i < length (query_subtrees s) \<Longrightarrow> query_subtrees s ! i \<noteq> NULL \<Longrightarrow>
   find_split_index e i acc s =
     find_split_index e (i + 1)
       (if splittable e s i \<and> fst acc < node_count e (query_subtrees s ! i)
        then (node_count e (query_subtrees s ! i), int i) else acc) s"
  by (subst find_split_index.simps) (auto simp: aligned_def splittable_def)

lemma chosen_upto_step:
  assumes inv: "chosen_upto e s i acc"
    and pos: "splittable e s i \<longrightarrow> 0 < node_count e (query_subtrees s ! i)"
  shows "chosen_upto e s (Suc i)
       (if splittable e s i \<and> fst acc < node_count e (query_subtrees s ! i)
        then (node_count e (query_subtrees s ! i), int i) else acc)"
proof (cases "splittable e s i \<and> fst acc < node_count e (query_subtrees s ! i)")
  case True
  have "\<forall>j < Suc i. splittable e s j \<longrightarrow>
         node_count e (query_subtrees s ! j) \<le> node_count e (query_subtrees s ! i)"
    using inv True pos by (auto simp: chosen_upto_def less_Suc_eq split: if_splits)
  moreover have "\<forall>j < i. splittable e s j \<longrightarrow>
         node_count e (query_subtrees s ! j) < node_count e (query_subtrees s ! i)"
    using inv True pos by (fastforce simp: chosen_upto_def split: if_splits)
  ultimately show ?thesis
    using True by (simp add: chosen_upto_def)
next
  case False
  show ?thesis
  proof (cases "snd acc < 0")
    case True
    with inv False pos show ?thesis
      by (auto simp: chosen_upto_def less_Suc_eq)
  next
    case nonneg: False
    with inv False show ?thesis
      by (auto simp: chosen_upto_def less_Suc_eq)
  qed
qed

lemma find_split_index_chosen:
  assumes al: "aligned s"
    and nn: "\<forall>node \<in> set (query_subtrees s). node \<noteq> NULL"
    and pos: "\<forall>j < length (query_subtrees s).
                splittable e s j \<longrightarrow> 0 < node_count e (query_subtrees s ! j)"
  shows "i \<le> length (query_subtrees s) \<Longrightarrow> chosen_upto e s i acc \<Longrightarrow>
     \<exists>acc'. find_split_index e i acc s = Inr acc' \<and> chosen_upto e s (length (query_subtrees s)) acc'"
proof (induction "length (query_subtrees s) - i" arbitrary: i acc)
  case 0
  then have "i = length (query_subtrees s)" by simp
  with 0 show ?case by (simp add: find_split_index_end)
next
  case (Suc n)
  then have lt: "i < length (query_subtrees s)" by simp
  with nn have "query_subtrees s ! i \<noteq> NULL" by simp
  note step = find_split_index_step [OF al lt this]
  let ?acc = "if splittable e s i \<and> fst acc < node_count e (query_subtrees s ! i)
        then (node_count e (query_subtrees s ! i), int i) else acc"
  have "chosen_upto e s (Suc i) ?acc"
    using Suc.prems(2) pos lt by (intro chosen_upto_step) auto
  with Suc.hyps(1) [of "Suc i" ?acc] Suc.hyps(2) lt
  have "\<exists>acc'. find_split_index e (Suc i) ?acc s = Inr acc'
           \<and> chosen_upto e s (length (query_subtrees s)) acc'"
    by simp
  then show ?case unfolding step by simp
qed

lemma chosen_upto_unique:
  assumes c: "chosen_upto e s n acc"
    and p: "p < n" "splittable e s p"
      "\<forall>j < n. splittable e s j \<longrightarrow> node_count e (query_subtrees s ! j) \<le> node_count e (query_subtrees s ! p)"
      "\<forall>j < p. splittable e s j \<longrightarrow> node_count e (query_subtrees s ! j) < node_count e (query_subtrees s ! p)"
  shows "snd acc = int p"
proof -
  from c p(1,2) have nonneg: "\<not> snd acc < 0"
    by (auto simp: chosen_upto_def split: if_splits)
  let ?q = "nat (snd acc)"
  from c nonneg have q: "?q < n" "splittable e s ?q"
    "fst acc = node_count e (query_subtrees s ! ?q)"
    "\<forall>j < n. splittable e s j \<longrightarrow> node_count e (query_subtrees s ! j) \<le> fst acc"
    "\<forall>j < ?q. splittable e s j \<longrightarrow> node_count e (query_subtrees s ! j) < fst acc"
    by (auto simp: chosen_upto_def)
  from q(1,2,3) p(3) q(4) p(1,2)
  have eq: "node_count e (query_subtrees s ! ?q) = node_count e (query_subtrees s ! p)"
    by fastforce
  have "?q = p"
  proof (rule ccontr)
    assume "?q \<noteq> p"
    then consider "?q < p" | "p < ?q" by linarith
    then show False
    proof cases
      case 1
      with p(4) q(2) eq show False by auto
    next
      case 2
      with q(5) p(2) q(3) eq show False by auto
    qed
  qed
  with nonneg show ?thesis by simp
qed


text \<open>
  C5.  In a task queue whose vectors are aligned and whose query subtrees are not null,
  every subtree that can be split having a positive point count:
  \<^verbatim>\<open>RedistributeAmongCores\<close> does nothing when no split was requested; when one was
  requested and no subtree is unlocked, not a leaf and with a task in its heap, it only
  clears the request; otherwise it calls \<^verbatim>\<open>split_subtree_\<close> on the subtree \<open>p\<close> that is
  unlocked, not a leaf, with a task in its heap, and whose point count is the largest
  among those and larger than that of every such subtree before it, and then clears the
  request (the split returns when the children of the node and the reference nodes of its
  tasks are not null).  Whenever the method returns, the request is clear.
\<close>

theorem redistribute_selects_largest:
  assumes al: "aligned s"
    and nn: "\<forall>node \<in> set (query_subtrees s). node \<noteq> NULL"
    and pos: "\<forall>j < length (query_subtrees s).
                splittable e s j \<longrightarrow> 0 < node_count e (query_subtrees s ! j)"
  shows
    "(\<not> split_subtree_after_unlocking s \<longrightarrow> RedistributeAmongCores e s = Some (Inr s))
     \<and> (split_subtree_after_unlocking s \<and> (\<forall>j < length (query_subtrees s). \<not> splittable e s j) \<longrightarrow>
          RedistributeAmongCores e s = Some (Inr (s\<lparr> split_subtree_after_unlocking := False \<rparr>)))
     \<and> (\<forall>p < length (query_subtrees s).
          split_subtree_after_unlocking s \<and> splittable e s p
          \<and> (\<forall>j < length (query_subtrees s). splittable e s j \<longrightarrow>
                node_count e (query_subtrees s ! j) \<le> node_count e (query_subtrees s ! p))
          \<and> (\<forall>j < p. splittable e s j \<longrightarrow>
                node_count e (query_subtrees s ! j) < node_count e (query_subtrees s ! p)) \<longrightarrow>
          RedistributeAmongCores e s =
            (case split_subtree e (int p) s of
               None \<Rightarrow> None
             | Some (Inl f) \<Rightarrow> Some (Inl f)
             | Some (Inr s1) \<Rightarrow> Some (Inr (s1\<lparr> split_subtree_after_unlocking := False \<rparr>)))
          \<and> (node_left e (query_subtrees s ! p) \<noteq> NULL \<and> node_right e (query_subtrees s ! p) \<noteq> NULL
              \<and> (\<forall>t \<in> set (tasks s ! p). reference_start_node t \<noteq> NULL) \<longrightarrow>
              (\<exists>s1. split_subtree e (int p) s = Some (Inr s1)
                 \<and> RedistributeAmongCores e s
                     = Some (Inr (s1\<lparr> split_subtree_after_unlocking := False \<rparr>)))))
     \<and> (\<forall>s'. RedistributeAmongCores e s = Some (Inr s') \<longrightarrow> \<not> split_subtree_after_unlocking s')"
proof -
  let ?n = "length (query_subtrees s)"
  have "chosen_upto e s 0 (0, - 1)"
    by (simp add: chosen_upto_def)
  with find_split_index_chosen [OF al nn pos, of 0 "(0, - 1)"]
  obtain acc where acc: "find_split_index e 0 (0, - 1) s = Inr acc" "chosen_upto e s ?n acc"
    by auto
  have a: "RedistributeAmongCores e s = Some (Inr s)" if "\<not> split_subtree_after_unlocking s"
    using that by (simp add: RedistributeAmongCores_def)
  have b: "RedistributeAmongCores e s = Some (Inr (s\<lparr> split_subtree_after_unlocking := False \<rparr>))"
    if "split_subtree_after_unlocking s" "\<forall>j < ?n. \<not> splittable e s j"
  proof -
    from acc(2) that(2) have "snd acc < 0"
      by (auto simp: chosen_upto_def split: if_splits)
    with that(1) acc(1) show ?thesis
      by (simp add: RedistributeAmongCores_def)
  qed
  have c: "RedistributeAmongCores e s =
            (case split_subtree e (int p) s of
               None \<Rightarrow> None
             | Some (Inl f) \<Rightarrow> Some (Inl f)
             | Some (Inr s1) \<Rightarrow> Some (Inr (s1\<lparr> split_subtree_after_unlocking := False \<rparr>)))"
    if "p < ?n" "split_subtree_after_unlocking s" "splittable e s p"
      "\<forall>j < ?n. splittable e s j \<longrightarrow>
                node_count e (query_subtrees s ! j) \<le> node_count e (query_subtrees s ! p)"
      "\<forall>j < p. splittable e s j \<longrightarrow>
                node_count e (query_subtrees s ! j) < node_count e (query_subtrees s ! p)"
    for p
  proof -
    from chosen_upto_unique [OF acc(2) that(1,3,4,5)] have "snd acc = int p" .
    with that(2) acc(1) show ?thesis
      by (simp add: RedistributeAmongCores_def)
  qed
  have d: "\<exists>s1. split_subtree e (int p) s = Some (Inr s1)"
    if "p < ?n" "splittable e s p" "node_left e (query_subtrees s ! p) \<noteq> NULL"
      "node_right e (query_subtrees s ! p) \<noteq> NULL"
      "\<forall>t \<in> set (tasks s ! p). reference_start_node t \<noteq> NULL" for p
  proof -
    have "in_range (query_subtrees s) (int p)" "query_subtrees s ! nat (int p) \<noteq> NULL"
      "\<not> query_subtree_locks s ! nat (int p)"
      using that(1,2) nn by (auto simp: in_range_def splittable_def)
    from split_subtree_unlocked [OF al this(1,2) _ _ this(3), of e] that(3,4,5)
    show ?thesis by (simp add: Let_def)
  qed
  have f: "\<not> split_subtree_after_unlocking s'" if "RedistributeAmongCores e s = Some (Inr s')" for s'
    using that
    by (auto simp: RedistributeAmongCores_def split: if_splits sum.splits option.splits)
  show ?thesis
  proof (intro conjI allI impI)
    fix p
    assume p: "p < ?n" and h: "split_subtree_after_unlocking s \<and> splittable e s p
          \<and> (\<forall>j < length (query_subtrees s). splittable e s j \<longrightarrow>
                node_count e (query_subtrees s ! j) \<le> node_count e (query_subtrees s ! p))
          \<and> (\<forall>j < p. splittable e s j \<longrightarrow>
                node_count e (query_subtrees s ! j) < node_count e (query_subtrees s ! p))"
    from c [OF p] h show red: "RedistributeAmongCores e s =
            (case split_subtree e (int p) s of
               None \<Rightarrow> None
             | Some (Inl f) \<Rightarrow> Some (Inl f)
             | Some (Inr s1) \<Rightarrow> Some (Inr (s1\<lparr> split_subtree_after_unlocking := False \<rparr>)))"
      by blast
    assume "node_left e (query_subtrees s ! p) \<noteq> NULL \<and> node_right e (query_subtrees s ! p) \<noteq> NULL
              \<and> (\<forall>t \<in> set (tasks s ! p). reference_start_node t \<noteq> NULL)"
    with d [OF p] h obtain s1 where "split_subtree e (int p) s = Some (Inr s1)"
      by blast
    with red show "\<exists>s1. split_subtree e (int p) s = Some (Inr s1)
                 \<and> RedistributeAmongCores e s
                     = Some (Inr (s1\<lparr> split_subtree_after_unlocking := False \<rparr>))"
      by simp
  qed (use a b f in blast)+
qed


theorem redistribute_selects_largest_witness:
  "aligned demo_requested \<and> split_subtree_after_unlocking demo_requested
   \<and> query_subtrees demo_requested = [1, 2]
   \<and> splittable demo_env demo_requested 0 \<and> splittable demo_env demo_requested 1
   \<and> node_count demo_env 1 = 100 \<and> node_count demo_env 2 = 100
   \<and> RedistributeAmongCores demo_env demo_requested =
       Some (Inr (demo_loaded\<lparr>
         query_subtrees := [3, 2, 4],
         query_subtree_locks := [False, False, False],
         tasks := [[make_task demo_env 3 (60, 3, 5), make_task demo_env 3 (60, 4, 5),
                    make_task demo_env 3 (71, 72, 7)],
                   [make_task demo_env 2 (60, 1, 5), make_task demo_env 2 (71, 72, 7)],
                   [make_task demo_env 4 (60, 3, 5), make_task demo_env 4 (60, 4, 5),
                    make_task demo_env 4 (71, 72, 7)]],
         assigned_work := [[(0, 0, 100), (1, 0, 50)], [(0, 0, 100), (1, 0, 50)],
                           [(0, 0, 100), (1, 0, 50)]],
         remaining_work_for_query_subtrees := [200, 200, 200],
         num_remaining_tasks := 8,
         table_exchange := [ExchangeInit, LockCache 5 1, LockCache 5 1, LockCache 7 1,
                            LockCache 7 1, LockCache 5 3, LockCache 7 1] \<rparr>))"
proof -
  have al: "aligned demo_requested"
    and nn: "\<forall>node \<in> set (query_subtrees demo_requested). node \<noteq> NULL"
    and qs: "query_subtrees demo_requested = [1, 2]"
    and flag: "split_subtree_after_unlocking demo_requested"
    by (simp_all add: aligned_def demo_requested_def demo_loaded_def)
  have sp: "splittable demo_env demo_requested 0" "splittable demo_env demo_requested 1"
    and cnt: "node_count demo_env 1 = 100" "node_count demo_env 2 = 100"
    by (simp_all add: splittable_def demo_requested_def demo_loaded_def demo_env_def)
  have pos: "\<forall>j < length (query_subtrees demo_requested).
      splittable demo_env demo_requested j \<longrightarrow> 0 < node_count demo_env (query_subtrees demo_requested ! j)"
    using cnt by (simp add: qs less_Suc_eq numeral_2_eq_2)
  have best: "\<forall>j < length (query_subtrees demo_requested). splittable demo_env demo_requested j \<longrightarrow>
      node_count demo_env (query_subtrees demo_requested ! j)
        \<le> node_count demo_env (query_subtrees demo_requested ! 0)"
    using cnt by (simp add: qs less_Suc_eq numeral_2_eq_2)
  have ok: "node_left demo_env (query_subtrees demo_requested ! 0) \<noteq> NULL
      \<and> node_right demo_env (query_subtrees demo_requested ! 0) \<noteq> NULL
      \<and> (\<forall>t \<in> set (tasks demo_requested ! 0). reference_start_node t \<noteq> NULL)"
    by (simp add: demo_requested_def demo_loaded_def demo_env_def make_task_def)
  have p0: "0 < length (query_subtrees demo_requested)"
    by (simp add: qs)
  have chosen: "split_subtree_after_unlocking demo_requested \<and> splittable demo_env demo_requested 0
      \<and> (\<forall>j < length (query_subtrees demo_requested). splittable demo_env demo_requested j \<longrightarrow>
            node_count demo_env (query_subtrees demo_requested ! j)
              \<le> node_count demo_env (query_subtrees demo_requested ! 0))
      \<and> (\<forall>j < 0. splittable demo_env demo_requested j \<longrightarrow>
            node_count demo_env (query_subtrees demo_requested ! j)
              < node_count demo_env (query_subtrees demo_requested ! 0))"
    using flag sp(1) best by simp
  note sel = redistribute_selects_largest [OF al nn pos, THEN conjunct2, THEN conjunct2,
      THEN conjunct1, rule_format, OF p0 chosen]
  from sel [THEN conjunct2, rule_format, OF ok]
  obtain s1 where s1: "split_subtree demo_env (int 0) demo_requested = Some (Inr s1)"
    "RedistributeAmongCores demo_env demo_requested
       = Some (Inr (s1\<lparr> split_subtree_after_unlocking := False \<rparr>))"
    by blast
  have "in_range (query_subtrees demo_requested) 0"
    "query_subtrees demo_requested ! nat 0 \<noteq> NULL"
    "node_left demo_env (query_subtrees demo_requested ! nat 0) \<noteq> NULL"
    "node_right demo_env (query_subtrees demo_requested ! nat 0) \<noteq> NULL"
    "\<not> query_subtree_locks demo_requested ! nat 0"
    "\<forall>t \<in> set (tasks demo_requested ! nat 0). reference_start_node t \<noteq> NULL"
    by (simp_all add: in_range_def demo_requested_def demo_loaded_def demo_env_def make_task_def)
  from split_subtree_unlocked [OF al this]
  have "split_subtree demo_env 0 demo_requested = Some (Inr (demo_loaded\<lparr>
         split_subtree_after_unlocking := True,
         query_subtrees := [3, 2, 4],
         query_subtree_locks := [False, False, False],
         tasks := [[make_task demo_env 3 (60, 3, 5), make_task demo_env 3 (60, 4, 5),
                    make_task demo_env 3 (71, 72, 7)],
                   [make_task demo_env 2 (60, 1, 5), make_task demo_env 2 (71, 72, 7)],
                   [make_task demo_env 4 (60, 3, 5), make_task demo_env 4 (60, 4, 5),
                    make_task demo_env 4 (71, 72, 7)]],
         assigned_work := [[(0, 0, 100), (1, 0, 50)], [(0, 0, 100), (1, 0, 50)],
                           [(0, 0, 100), (1, 0, 50)]],
         remaining_work_for_query_subtrees := [200, 200, 200],
         num_remaining_tasks := 8,
         table_exchange := [ExchangeInit, LockCache 5 1, LockCache 5 1, LockCache 7 1,
                            LockCache 7 1, LockCache 5 3, LockCache 7 1] \<rparr>))"
    by (simp add: Let_def demo_requested_def demo_loaded_def demo_env_def reissued_def relock_def
        self_pair_def make_task_def)
  with s1(1) have "s1 = demo_loaded\<lparr>
         split_subtree_after_unlocking := True,
         query_subtrees := [3, 2, 4],
         query_subtree_locks := [False, False, False],
         tasks := [[make_task demo_env 3 (60, 3, 5), make_task demo_env 3 (60, 4, 5),
                    make_task demo_env 3 (71, 72, 7)],
                   [make_task demo_env 2 (60, 1, 5), make_task demo_env 2 (71, 72, 7)],
                   [make_task demo_env 4 (60, 3, 5), make_task demo_env 4 (60, 4, 5),
                    make_task demo_env 4 (71, 72, 7)]],
         assigned_work := [[(0, 0, 100), (1, 0, 50)], [(0, 0, 100), (1, 0, 50)],
                           [(0, 0, 100), (1, 0, 50)]],
         remaining_work_for_query_subtrees := [200, 200, 200],
         num_remaining_tasks := 8,
         table_exchange := [ExchangeInit, LockCache 5 1, LockCache 5 1, LockCache 7 1,
                            LockCache 7 1, LockCache 5 3, LockCache 7 1] \<rparr>"
    by simp
  then have "s1\<lparr> split_subtree_after_unlocking := False \<rparr> = demo_loaded\<lparr>
         query_subtrees := [3, 2, 4],
         query_subtree_locks := [False, False, False],
         tasks := [[make_task demo_env 3 (60, 3, 5), make_task demo_env 3 (60, 4, 5),
                    make_task demo_env 3 (71, 72, 7)],
                   [make_task demo_env 2 (60, 1, 5), make_task demo_env 2 (71, 72, 7)],
                   [make_task demo_env 4 (60, 3, 5), make_task demo_env 4 (60, 4, 5),
                    make_task demo_env 4 (71, 72, 7)]],
         assigned_work := [[(0, 0, 100), (1, 0, 50)], [(0, 0, 100), (1, 0, 50)],
                           [(0, 0, 100), (1, 0, 50)]],
         remaining_work_for_query_subtrees := [200, 200, 200],
         num_remaining_tasks := 8,
         table_exchange := [ExchangeInit, LockCache 5 1, LockCache 5 1, LockCache 7 1,
                            LockCache 7 1, LockCache 5 3, LockCache 7 1] \<rparr>"
    by (simp add: demo_loaded_def)
  with s1(2) al flag qs sp cnt show ?thesis by simp
qed

subsection \<open>What the operations leave unchanged\<close>

lemma frame_of_refl: "frame_of s s"
  by (simp add: frame_of_def)

lemma frame_of_trans: "frame_of s s1 \<Longrightarrow> frame_of s1 s2 \<Longrightarrow> frame_of s s2"
  by (simp add: frame_of_def)

lemma frame_of_exchange:
  "frame_of s (s\<lparr> table_exchange := x \<rparr>)"
  by (simp add: frame_of_def tasks_counted_def)

lemma frame_of_aligned: "frame_of s s' \<Longrightarrow> aligned s \<Longrightarrow> aligned s'"
  by (simp add: frame_of_def aligned_def)

lemma PushTask_frame_of:
  "PushTask e i pr s = Inr s' \<Longrightarrow>
     frame_of s s' \<and> (\<forall>k. k \<noteq> nat i \<longrightarrow> tasks s' ! k = tasks s ! k)"
  using PushTask_counted [of e i pr s s']
  by (auto simp: PushTask_Inr frame_of_def)

lemma reemit_frame_of:
  "reemit e T p ts s = Inr s' \<Longrightarrow>
     frame_of s s'
     \<and> (\<forall>k. k \<noteq> nat p \<and> k \<noteq> length (query_subtrees s) - 1 \<longrightarrow> tasks s' ! k = tasks s ! k)"
proof (induction ts arbitrary: s)
  case Nil
  then show ?case by (simp add: frame_of_refl)
next
  case (Cons t ts)
  let ?l = "length (query_subtrees s) - 1"
  have l: "nat (int (length (query_subtrees s)) - 1) = ?l"
    by simp
  from Cons.prems have nn: "reference_start_node t \<noteq> NULL"
    by (auto split: if_splits)
  show ?case
  proof (cases "\<not> node_is_leaf e (reference_start_node t) \<and> T = reference_start_node t")
    case True
    with Cons.prems nn obtain s1 s2 s3 s4 where
      a: "PushTask e p (reference_table t, node_left e (reference_start_node t), cache_id t) s = Inr s1"
      and b: "PushTask e p (reference_table t, node_right e (reference_start_node t), cache_id t) s1 = Inr s2"
      and c: "PushTask e (int (length (query_subtrees s2)) - 1)
                (reference_table t, node_left e (reference_start_node t), cache_id t) s2 = Inr s3"
      and d: "PushTask e (int (length (query_subtrees s3)) - 1)
                (reference_table t, node_right e (reference_start_node t), cache_id t) s3 = Inr s4"
      and r: "reemit e T p ts (s4\<lparr> table_exchange := table_exchange s4 @ [LockCache (cache_id t) 3] \<rparr>) = Inr s'"
      by (auto simp: Let_def and_then_eq_Inr)
    note fa = PushTask_frame_of [OF a] and fb = PushTask_frame_of [OF b]
      and fc = PushTask_frame_of [OF c] and fd = PushTask_frame_of [OF d]
    let ?s5 = "s4\<lparr> table_exchange := table_exchange s4 @ [LockCache (cache_id t) 3] \<rparr>"
    have q: "query_subtrees s1 = query_subtrees s" "query_subtrees s2 = query_subtrees s"
      "query_subtrees s3 = query_subtrees s" "query_subtrees s4 = query_subtrees s"
      using fa fb fc fd by (simp_all add: frame_of_def)
    have f5: "frame_of s ?s5"
      using fa fb fc fd frame_of_exchange [of s4] by (blast intro: frame_of_trans)
    have t5: "tasks ?s5 ! k = tasks s ! k" if "k \<noteq> nat p" "k \<noteq> ?l" for k
      using fa fb fc fd that l by (simp add: q)
    from Cons.IH [OF r] have ih: "frame_of ?s5 s'"
      "\<forall>k. k \<noteq> nat p \<and> k \<noteq> length (query_subtrees ?s5) - 1 \<longrightarrow> tasks s' ! k = tasks ?s5 ! k"
      by simp_all
    show ?thesis
      using frame_of_trans [OF f5 ih(1)] ih(2) t5 by (simp add: q)
  next
    case False
    with Cons.prems nn obtain s1 s2 where
      a: "PushTask e p (reference_table t, reference_start_node t, cache_id t) s = Inr s1"
      and b: "PushTask e (int (length (query_subtrees s1)) - 1)
                (reference_table t, reference_start_node t, cache_id t) s1 = Inr s2"
      and r: "reemit e T p ts (s2\<lparr> table_exchange := table_exchange s2 @ [LockCache (cache_id t) 1] \<rparr>) = Inr s'"
      by (auto simp: Let_def and_then_eq_Inr)
    note fa = PushTask_frame_of [OF a] and fb = PushTask_frame_of [OF b]
    let ?s5 = "s2\<lparr> table_exchange := table_exchange s2 @ [LockCache (cache_id t) 1] \<rparr>"
    have q: "query_subtrees s1 = query_subtrees s" "query_subtrees s2 = query_subtrees s"
      using fa fb by (simp_all add: frame_of_def)
    have f5: "frame_of s ?s5"
      using fa fb frame_of_exchange [of s2] by (blast intro: frame_of_trans)
    have t5: "tasks ?s5 ! k = tasks s ! k" if "k \<noteq> nat p" "k \<noteq> ?l" for k
      using fa fb that l by (simp add: q)
    from Cons.IH [OF r] have ih: "frame_of ?s5 s'"
      "\<forall>k. k \<noteq> nat p \<and> k \<noteq> length (query_subtrees ?s5) - 1 \<longrightarrow> tasks s' ! k = tasks ?s5 ! k"
      by simp_all
    show ?thesis
      using frame_of_trans [OF f5 ih(1)] ih(2) t5 by (simp add: q)
  qed
qed


lemma split_subtree_success:
  assumes "split_subtree e p s = Some (Inr s')"
  shows "in_range (query_subtrees s) p
     \<and> query_subtrees s' = (query_subtrees s)[nat p := node_left e (query_subtrees s ! nat p)]
                             @ [node_right e (query_subtrees s ! nat p)]
     \<and> query_subtree_locks s' = query_subtree_locks s @ [False]
     \<and> assigned_work s' = assigned_work s @ [assigned_work s ! nat p]
     \<and> remaining_work_for_query_subtrees s'
         = remaining_work_for_query_subtrees s @ [remaining_work_for_query_subtrees s ! nat p]
     \<and> length (tasks s') = Suc (length (tasks s))
     \<and> (\<forall>k < length (tasks s). k \<noteq> nat p \<and> k \<noteq> length (query_subtrees s) \<longrightarrow>
            tasks s' ! k = tasks s ! k)
     \<and> split_subtree_after_unlocking s' = split_subtree_after_unlocking s
     \<and> (tasks_counted s \<longrightarrow> tasks_counted s')"
proof -
  let ?T = "query_subtrees s ! nat p"
  let ?s1 = "s\<lparr> query_subtrees := (query_subtrees s)[nat p := node_left e ?T] @ [node_right e ?T],
                query_subtree_locks := query_subtree_locks s @ [False] \<rparr>"
  from assms have rng: "in_range (query_subtrees s) p" and nn: "?T \<noteq> NULL"
    by (auto simp: split_subtree_def Let_def split: if_splits)
  from assms rng nn obtain r where dr: "drain e p [] ?s1 = Some (Inr r)"
    by (cases "drain e p [] ?s1")
       (auto simp: split_subtree_def Let_def split: sum.splits)
  let ?s2 = "snd r"
  let ?s3 = "?s2\<lparr> tasks := tasks ?s2 @ [[]],
                  assigned_work := assigned_work ?s2 @ [assigned_work ?s2 ! nat p],
                  remaining_work_for_query_subtrees :=
                    remaining_work_for_query_subtrees ?s2
                    @ [remaining_work_for_query_subtrees ?s2 ! nat p] \<rparr>"
  from assms rng nn dr have re: "reemit e ?T p (fst r) ?s3 = Inr s'"
    by (auto simp: split_subtree_def Let_def split: if_splits)
  from dr have tr: "in_range (tasks ?s1) p"
    by (auto simp: drain_cases split: if_splits)
  then have pt: "nat p < length (tasks s)"
    by (auto simp: in_range_def)
  from dr have s2: "?s2 = ?s1 \<or> ?s2 = ?s1\<lparr> tasks := (tasks ?s1)[nat p := []],
         num_remaining_tasks := num_remaining_tasks ?s1 - int (length (tasks ?s1 ! nat p)) \<rparr>"
    by (auto simp: drain_cases split: if_splits)
  have c2: "tasks_counted s \<longrightarrow> tasks_counted ?s2"
    using s2 pt by (auto simp: tasks_counted_def sum_list_heap_update)
  have f2: "query_subtrees ?s2 = query_subtrees ?s1" "assigned_work ?s2 = assigned_work s"
    "remaining_work_for_query_subtrees ?s2 = remaining_work_for_query_subtrees s"
    "query_subtree_locks ?s2 = query_subtree_locks s @ [False]"
    "split_subtree_after_unlocking ?s2 = split_subtree_after_unlocking s"
    "length (tasks ?s2) = length (tasks s)"
    "\<forall>k. k \<noteq> nat p \<longrightarrow> tasks ?s2 ! k = tasks s ! k"
    using s2 by auto
  have c3: "tasks_counted s \<longrightarrow> tasks_counted ?s3"
    using c2 by (simp add: tasks_counted_def)
  note fr = reemit_frame_of [OF re]
  from fr have f: "frame_of ?s3 s'" by simp
  from fr have other: "\<forall>k. k \<noteq> nat p \<and> k \<noteq> length (query_subtrees ?s3) - 1 \<longrightarrow>
      tasks s' ! k = tasks ?s3 ! k" by simp
  have t: "tasks s' ! k = tasks s ! k"
    if "k < length (tasks s)" "k \<noteq> nat p" "k \<noteq> length (query_subtrees s)" for k
    using other that f2 by (simp add: nth_append)
  show ?thesis
    using rng f f2 c3 t by (simp add: frame_of_def)
qed

lemma split_subtree_aligned:
  "split_subtree e p s = Some (Inr s') \<Longrightarrow> aligned s \<Longrightarrow> aligned s'"
  using split_subtree_success [of e p s s'] by (simp add: aligned_def)

lemma GenerateTasks_inner_frame_of:
  "GenerateTasks_inner e pr iv j s = Inr s' \<Longrightarrow>
     query_subtrees s' = query_subtrees s
     \<and> length (assigned_work s') = length (assigned_work s)
     \<and> remaining_work_for_query_subtrees s' = remaining_work_for_query_subtrees s
     \<and> query_subtree_locks s' = query_subtree_locks s
     \<and> split_subtree_after_unlocking s' = split_subtree_after_unlocking s
     \<and> length (tasks s') = length (tasks s)
     \<and> (tasks_counted s \<longrightarrow> tasks_counted s')"
proof (induction e pr iv j s rule: GenerateTasks_inner.induct)
  case (1 e pr iv j s)
  note eq = "1.prems" [unfolded GenerateTasks_inner.simps [of e pr iv j s]]
  show ?case
  proof (cases "j < length (query_subtrees s)")
    case False
    with eq show ?thesis by simp
  next
    case lt: True
    with eq have la: "j < length (assigned_work s)"
      by (simp split: if_splits)
    let ?r = "Insert iv (assigned_work s ! j)"
    let ?s1 = "s\<lparr> assigned_work := (assigned_work s)[j := snd ?r] \<rparr>"
    show ?thesis
    proof (cases "fst ?r")
      case True
      with eq lt la obtain s2 where
        push: "PushTask e (int j) pr ?s1 = Inr s2"
        and rec: "GenerateTasks_inner e pr iv (j + 1)
           (s2\<lparr> table_exchange := table_exchange s2 @ [LockCache (snd (snd pr)) 1] \<rparr>) = Inr s'"
        by (auto simp: Let_def split: sum.splits)
      from PushTask_frame_of [OF push] have f: "frame_of ?s1 s2" by simp
      from "1.IH"(1) [OF lt _ refl refl True push rec] la
      have ih: "query_subtrees s' = query_subtrees s2
         \<and> length (assigned_work s') = length (assigned_work s2)
         \<and> remaining_work_for_query_subtrees s' = remaining_work_for_query_subtrees s2
         \<and> query_subtree_locks s' = query_subtree_locks s2
         \<and> split_subtree_after_unlocking s' = split_subtree_after_unlocking s2
         \<and> length (tasks s') = length (tasks s2)
         \<and> (tasks_counted s2 \<longrightarrow> tasks_counted s')"
        by (simp add: tasks_counted_def)
      with f show ?thesis
        by (simp add: frame_of_def tasks_counted_def)
    next
      case False
      with eq lt la have rec: "GenerateTasks_inner e pr iv (j + 1) ?s1 = Inr s'"
        by (simp add: Let_def)
      from "1.IH"(2) [OF lt _ refl refl False rec] la show ?thesis
        by (simp add: tasks_counted_def)
    qed
  qed
qed

lemma GenerateTasks_frame_of:
  "GenerateTasks e ds s = Inr s' \<Longrightarrow>
     query_subtrees s' = query_subtrees s
     \<and> length (assigned_work s') = length (assigned_work s)
     \<and> remaining_work_for_query_subtrees s' = remaining_work_for_query_subtrees s
     \<and> query_subtree_locks s' = query_subtree_locks s
     \<and> split_subtree_after_unlocking s' = split_subtree_after_unlocking s
     \<and> length (tasks s') = length (tasks s)
     \<and> (tasks_counted s \<longrightarrow> tasks_counted s')"
proof (induction ds arbitrary: s)
  case Nil
  then show ?case by simp
next
  case (Cons d ds)
  then obtain s1 where one: "GenerateTasks_one e d s = Inr s1" and rest: "GenerateTasks e ds s1 = Inr s'"
    by (auto split: sum.splits)
  from one have "query_subtrees s1 = query_subtrees s
     \<and> length (assigned_work s1) = length (assigned_work s)
     \<and> remaining_work_for_query_subtrees s1 = remaining_work_for_query_subtrees s
     \<and> query_subtree_locks s1 = query_subtree_locks s
     \<and> split_subtree_after_unlocking s1 = split_subtree_after_unlocking s
     \<and> length (tasks s1) = length (tasks s)
     \<and> (tasks_counted s \<longrightarrow> tasks_counted s1)"
    unfolding GenerateTasks_one_def Let_def by (rule GenerateTasks_inner_frame_of)
  with Cons.IH [OF rest] show ?case by simp
qed

subsection \<open>The invariants of the task queue\<close>

lemma aligned_flag [simp]: "aligned (s\<lparr> split_subtree_after_unlocking := b \<rparr>) = aligned s"
  by (simp add: aligned_def)

lemma tasks_counted_flag [simp]:
  "tasks_counted (s\<lparr> split_subtree_after_unlocking := b \<rparr>) = tasks_counted s"
  by (simp add: tasks_counted_def)

lemma DequeueTask_at_invariants:
  assumes "DequeueTask_at i out l s = Inr (out', s')"
  shows "(aligned s \<longrightarrow> aligned s') \<and> (tasks_counted s \<longrightarrow> tasks_counted s')"
proof (cases "s' = s")
  case True
  then show ?thesis by simp
next
  case False
  with assms have c: "in_range (tasks s) i" "tasks s ! nat i \<noteq> []"
    and s': "s' = s\<lparr> tasks := (tasks s)[nat i := tl (tasks s ! nat i)],
             query_subtree_locks := (query_subtree_locks s)[nat i := l],
             num_remaining_tasks := num_remaining_tasks s - 1 \<rparr>"
    by (auto simp: DequeueTask_at_def split: if_splits)
  from c(1) have "nat i < length (tasks s)"
    by (auto simp: in_range_def)
  from dequeue_pop_counted [OF this c(2)] show ?thesis
    unfolding s' by (auto simp: aligned_def)
qed

lemma RedistributeAmongCores_invariants:
  assumes "RedistributeAmongCores e s = Some (Inr s')"
  shows "(aligned s \<longrightarrow> aligned s') \<and> (tasks_counted s \<longrightarrow> tasks_counted s')"
proof (cases "split_subtree_after_unlocking s")
  case False
  with assms show ?thesis by (simp add: RedistributeAmongCores_def)
next
  case True
  with assms obtain acc where acc: "find_split_index e 0 (0, - 1) s = Inr acc"
    by (cases "find_split_index e 0 (0, - 1) s") (auto simp: RedistributeAmongCores_def)
  show ?thesis
  proof (cases "snd acc \<ge> 0")
    case False
    with assms True acc show ?thesis by (auto simp: RedistributeAmongCores_def)
  next
    case nonneg: True
    with assms True acc obtain s1 where s1: "split_subtree e (snd acc) s = Some (Inr s1)"
      and s': "s' = s1\<lparr> split_subtree_after_unlocking := False \<rparr>"
      by (auto simp: RedistributeAmongCores_def split: option.splits sum.splits)
    from split_subtree_success [OF s1] split_subtree_aligned [OF s1] show ?thesis
      unfolding s' by simp
  qed
qed

lemma push_completed_computation_aligned:
  assumes "push_completed_computation rc qu s = Inr s'" "aligned s"
  shows "aligned s'"
proof -
  let ?s1 = "subtract_quantity qu s"
  from assms(1) have r: "subtract_reference_count_from rc 0 ?s1 = Inr s'"
    by (simp add: push_completed_computation_def)
  from subtract_reference_count_from_result [OF r]
  have eq: "s'\<lparr> remaining_work_for_query_subtrees := remaining_work_for_query_subtrees ?s1 \<rparr> = ?s1"
    and len: "length (remaining_work_for_query_subtrees s') = length (remaining_work_for_query_subtrees ?s1)"
    by blast+
  have "query_subtrees s' = query_subtrees ?s1" "assigned_work s' = assigned_work ?s1"
    "query_subtree_locks s' = query_subtree_locks ?s1" "tasks s' = tasks ?s1"
    by (subst eq [symmetric], simp)+
  with len assms(2) show ?thesis
    by (simp add: aligned_def subtract_quantity_def)
qed

lemma push_completed_computation_for_aligned:
  assumes "push_completed_computation_for e qid rc qu s = Inr s'" "aligned s"
  shows "aligned s'"
  using assms
  by (auto simp: push_completed_computation_for_def Let_def aligned_def subtract_quantity_def
      split: sum.splits if_splits)

lemma UnlockQuerySubtree_aligned:
  assumes "UnlockQuerySubtree e qid s = Inr s'" "aligned s"
  shows "aligned s'"
  using assms by (auto simp: UnlockQuerySubtree_def aligned_def split: sum.splits if_splits)

lemma Init_aligned: "aligned (Init e w qn rn n t s)"
  by (simp add: Init_def Let_def aligned_def)


lemma demo_loaded_aligned: "aligned demo_loaded"
  by (simp add: aligned_def demo_loaded_def)

lemma demo_scan_aligned: "aligned demo_scan"
  by (simp add: aligned_def demo_scan_def)

lemma demo_split_eq: "split_subtree demo_env 0 demo_loaded = Some (Inr demo_split)"
proof -
  have "in_range (query_subtrees demo_loaded) 0"
    "query_subtrees demo_loaded ! nat 0 \<noteq> NULL"
    "node_left demo_env (query_subtrees demo_loaded ! nat 0) \<noteq> NULL"
    "node_right demo_env (query_subtrees demo_loaded ! nat 0) \<noteq> NULL"
    "\<not> query_subtree_locks demo_loaded ! nat 0"
    "\<forall>t \<in> set (tasks demo_loaded ! nat 0). reference_start_node t \<noteq> NULL"
    by (simp_all add: in_range_def demo_loaded_def demo_env_def make_task_def)
  from split_subtree_unlocked [OF demo_loaded_aligned this] show ?thesis
    by (simp add: Let_def demo_split_def demo_loaded_def demo_env_def reissued_def relock_def
        self_pair_def make_task_def)
qed

lemma demo_scan_eq:
  "DequeueTask (default_task demo_env, 0) True demo_scan =
     Inr ((make_task demo_env 5 (71, 72, 7), 1), demo_scanned)"
  by (simp add: DequeueTask_def DequeueTask_from.simps retire_def swap_pop_def demo_scan_def
      demo_scanned_def)

text \<open>
  C6.  The constructor and \<^verbatim>\<open>Init\<close> leave the five parallel vectors with one length, and every operation
  that returns keeps them so: the retirement inside the untargeted dequeue, which takes
  the same slot out of all five (the slots after it are the slots before it with the last
  slot copied over slot \<open>k\<close> and then dropped), the split, which appends one slot and
  leaves every slot but \<open>p\<close> as it was, both forms of the dequeue, \<^verbatim>\<open>GenerateTasks\<close>,
  \<^verbatim>\<open>RedistributeAmongCores\<close>, \<^verbatim>\<open>UnlockQuerySubtree\<close> and both forms of
  \<^verbatim>\<open>push_completed_computation\<close>.
\<close>

theorem parallel_vectors_aligned:
  "aligned constructor
   \<and> aligned (Init e w qn rn n t s0)
   \<and> (aligned s \<longrightarrow>
        (\<forall>k. aligned (retire k s) \<and> slots (retire k s) = butlast ((slots s)[k := last (slots s)]))
      \<and> (\<forall>s'. split_subtree e p s = Some (Inr s') \<longrightarrow>
            aligned s' \<and> length (slots s') = Suc (length (slots s))
            \<and> (\<forall>k < length (slots s). k \<noteq> nat p \<longrightarrow> slots s' ! k = slots s ! k))
      \<and> (\<forall>out' s'. DequeueTask out l s = Inr (out', s') \<longrightarrow> aligned s')
      \<and> (\<forall>out' s'. DequeueTask_at i out l s = Inr (out', s') \<longrightarrow> aligned s')
      \<and> (\<forall>s'. GenerateTasks e ds s = Inr s' \<longrightarrow> aligned s')
      \<and> (\<forall>s'. RedistributeAmongCores e s = Some (Inr s') \<longrightarrow> aligned s')
      \<and> (\<forall>s'. UnlockQuerySubtree e qid s = Inr s' \<longrightarrow> aligned s')
      \<and> (\<forall>s'. push_completed_computation rc qu s = Inr s' \<longrightarrow> aligned s')
      \<and> (\<forall>s'. push_completed_computation_for e qid rc qu s = Inr s' \<longrightarrow> aligned s'))"
proof (intro conjI impI allI)
  show "aligned constructor"
    by (simp add: aligned_def constructor_def)
next
  show "aligned (Init e w qn rn n t s0)"
    by (rule Init_aligned)
next
  fix k assume "aligned s"
  then show "aligned (retire k s)" "slots (retire k s) = butlast ((slots s)[k := last (slots s)])"
    by (simp_all add: retire_aligned retire_slots swap_pop_def)
next
  fix s' assume al: "aligned s" and sp: "split_subtree e p s = Some (Inr s')"
  note suc = split_subtree_success [OF sp]
  show al': "aligned s'"
    using sp al by (rule split_subtree_aligned)
  from suc have len: "length (query_subtrees s') = Suc (length (query_subtrees s))"
    by simp
  then show "length (slots s') = Suc (length (slots s))"
    using al al' by (simp add: length_slots)
  fix k assume k: "k < length (slots s)" "k \<noteq> nat p"
  with al have kn: "k < length (query_subtrees s)"
    by (simp add: length_slots)
  with al have kl: "k < length (tasks s)" "k < length (assigned_work s)"
    "k < length (remaining_work_for_query_subtrees s)" "k < length (query_subtree_locks s)"
    by (simp_all add: aligned_def)
  with suc k(2) kn have "tasks s' ! k = tasks s ! k"
    by simp
  with suc k(2) kn kl show "slots s' ! k = slots s ! k"
    using nth_slots [OF al kn] nth_slots [OF al', of k] len
    by (simp add: nth_append)
next
  fix out' s' assume "aligned s" "DequeueTask out l s = Inr (out', s')"
  then show "aligned s'"
    using DequeueTask_from_invariants [of 0 out l s out' s'] by (simp add: DequeueTask_def)
next
  fix out' s' assume "aligned s" "DequeueTask_at i out l s = Inr (out', s')"
  then show "aligned s'"
    using DequeueTask_at_invariants [of i out l s out' s'] by simp
next
  fix s' assume "aligned s" "GenerateTasks e ds s = Inr s'"
  then show "aligned s'"
    using GenerateTasks_frame_of [of e ds s s'] by (simp add: aligned_def)
next
  fix s' assume "aligned s" "RedistributeAmongCores e s = Some (Inr s')"
  then show "aligned s'"
    using RedistributeAmongCores_invariants [of e s s'] by simp
next
  fix s' assume "aligned s" "UnlockQuerySubtree e qid s = Inr s'"
  then show "aligned s'"
    using UnlockQuerySubtree_aligned by blast
next
  fix s' assume "aligned s" "push_completed_computation rc qu s = Inr s'"
  then show "aligned s'"
    using push_completed_computation_aligned by blast
next
  fix s' assume "aligned s" "push_completed_computation_for e qid rc qu s = Inr s'"
  then show "aligned s'"
    using push_completed_computation_for_aligned by blast
qed


theorem parallel_vectors_aligned_witness:
  "aligned demo_loaded
   \<and> split_subtree demo_env 0 demo_loaded = Some (Inr demo_split)
   \<and> aligned demo_split \<and> length (slots demo_split) = Suc (length (slots demo_loaded))
   \<and> slots demo_split ! 1 = slots demo_loaded ! 1
   \<and> aligned demo_scan
   \<and> DequeueTask (default_task demo_env, 0) True demo_scan
       = Inr ((make_task demo_env 5 (71, 72, 7), 1), demo_scanned)
   \<and> aligned demo_scanned
   \<and> slots (retire 1 demo_scan) = butlast ((slots demo_scan)[1 := last (slots demo_scan)])"
proof -
  note a = parallel_vectors_aligned [where s = demo_loaded and e = demo_env and p = 0,
      THEN conjunct2, THEN conjunct2, rule_format, OF demo_loaded_aligned]
  note b = parallel_vectors_aligned [where s = demo_scan and out = "(default_task demo_env, 0)"
      and l = True, THEN conjunct2, THEN conjunct2, rule_format, OF demo_scan_aligned]
  from a [THEN conjunct2, THEN conjunct1, rule_format, OF demo_split_eq]
  have sp: "aligned demo_split" "length (slots demo_split) = Suc (length (slots demo_loaded))"
    "\<forall>k < length (slots demo_loaded). k \<noteq> nat 0 \<longrightarrow> slots demo_split ! k = slots demo_loaded ! k"
    by blast+
  have "length (slots demo_loaded) = 2"
    by (simp add: slots_def demo_loaded_def)
  with sp(3) have one: "slots demo_split ! 1 = slots demo_loaded ! 1"
    by simp
  from b [THEN conjunct2, THEN conjunct2, THEN conjunct1, rule_format, OF demo_scan_eq]
  have sc: "aligned demo_scanned" .
  from b [THEN conjunct1, rule_format, of 1]
  have re: "slots (retire 1 demo_scan) = butlast ((slots demo_scan)[1 := last (slots demo_scan)])"
    by blast
  from demo_loaded_aligned demo_split_eq sp(1,2) one demo_scan_aligned demo_scan_eq sc re
  show ?thesis by blast
qed




subsection \<open>Generating tasks from received sub-tables\<close>

lemma GenerateTasks_one_eq:
  "GenerateTasks_one e d s =
     GenerateTasks_inner e (reference_pair e d) (reference_interval e d) 0 s"
  by (simp add: GenerateTasks_one_def reference_pair_def reference_interval_def Let_def
      split: option.splits)

lemma covered_Insert: "covered x (snd (Insert x w))"
  by (auto simp: Insert_def covered_def)

lemma covered_Insert_mono: "covered y w \<Longrightarrow> covered y (snd (Insert x w))"
  by (auto simp: Insert_def covered_def)

lemma Insert_covered: "covered x w \<Longrightarrow> Insert x w = (False, w)"
  by (simp add: Insert_def)

lemma fst_Insert: "fst (Insert x w) = (\<not> covered x w)"
  by (simp add: Insert_def)

lemma locks_in_append [simp]: "locks_in c (xs @ ys) = locks_in c xs + locks_in c ys"
  by (induction c xs rule: locks_in.induct) auto

lemma filter_heap_push:
  "length (filter P (heap_push t h)) = length (filter P h) + (if P t then 1 else 0)"
  by (induction h) auto

lemma tasks_of_cache_update:
  "i < length ts \<Longrightarrow>
   sum_list (map (\<lambda>h. length (filter P h)) (ts[i := heap_push t (ts ! i)]))
     = sum_list (map (\<lambda>h. length (filter P h)) ts) + (if P t then 1 else 0)"
proof (induction ts arbitrary: i)
  case Nil
  then show ?case by simp
next
  case (Cons a ts)
  then show ?case by (cases i) (auto simp: filter_heap_push)
qed

lemma GenerateTasks_inner_uncovered:
  assumes "j < length (query_subtrees s)" "j < length (assigned_work s)"
    "\<not> covered iv (assigned_work s ! j)"
  shows "GenerateTasks_inner e pr iv j s =
     (case PushTask e (int j) pr (s\<lparr> assigned_work := (assigned_work s)[j := assigned_work s ! j @ [iv]] \<rparr>) of
        Inl f \<Rightarrow> Inl f
      | Inr s2 \<Rightarrow> GenerateTasks_inner e pr iv (j + 1)
           (s2\<lparr> table_exchange := table_exchange s2 @ [LockCache (snd (snd pr)) 1] \<rparr>))"
  using assms by (subst GenerateTasks_inner.simps) (simp add: Insert_def Let_def)

lemma GenerateTasks_inner_covered:
  assumes "j < length (query_subtrees s)" "j < length (assigned_work s)"
    "covered iv (assigned_work s ! j)"
  shows "GenerateTasks_inner e pr iv j s = GenerateTasks_inner e pr iv (j + 1) s"
  using assms by (subst GenerateTasks_inner.simps) (simp add: Insert_def Let_def)

lemma GenerateTasks_inner_end:
  "\<not> j < length (query_subtrees s) \<Longrightarrow> GenerateTasks_inner e pr iv j s = Inr s"
  by (subst GenerateTasks_inner.simps) simp

lemma GenerateTasks_inner_short:
  "j < length (query_subtrees s) \<Longrightarrow> \<not> j < length (assigned_work s) \<Longrightarrow>
   GenerateTasks_inner e pr iv j s = Inl OutOfRange"
  by (subst GenerateTasks_inner.simps) simp

text \<open>The effect of the inner loop, slot by slot.\<close>

lemma GenerateTasks_inner_effect:
  "GenerateTasks_inner e pr iv j s = Inr s' \<Longrightarrow>
     (j < length (query_subtrees s) \<longrightarrow> length (query_subtrees s) \<le> length (assigned_work s))
     \<and> (\<forall>k < length (assigned_work s).
          assigned_work s' ! k =
            (if j \<le> k \<and> k < length (query_subtrees s) then snd (Insert iv (assigned_work s ! k))
             else assigned_work s ! k))
     \<and> (\<forall>k < length (tasks s).
          length (tasks s' ! k) =
            (if j \<le> k \<and> k < length (query_subtrees s) \<and> \<not> covered iv (assigned_work s ! k)
             then Suc (length (tasks s ! k)) else length (tasks s ! k)))
     \<and> locks_in c (table_exchange s') - locks_in c (table_exchange s)
         = int (tasks_of_cache c s') - int (tasks_of_cache c s)"
proof (induction e pr iv j s rule: GenerateTasks_inner.induct)
  case (1 e pr iv j s)
  show ?case
  proof (cases "j < length (query_subtrees s)")
    case False
    with "1.prems" show ?thesis by (auto simp: GenerateTasks_inner_end)
  next
    case lt: True
    with "1.prems" have la: "j < length (assigned_work s)"
      by (cases "j < length (assigned_work s)") (simp_all add: GenerateTasks_inner_short)
    show ?thesis
    proof (cases "covered iv (assigned_work s ! j)")
      case cov: True
      then have ins: "Insert iv (assigned_work s ! j) = (False, assigned_work s ! j)"
        by (rule Insert_covered)
      have same: "s\<lparr> assigned_work := (assigned_work s)[j := snd (Insert iv (assigned_work s ! j))] \<rparr> = s"
        by (simp add: ins)
      from "1.prems" lt la cov have rec: "GenerateTasks_inner e pr iv (j + 1) s = Inr s'"
        by (simp add: GenerateTasks_inner_covered)
      from "1.IH"(2) [OF lt _ refl refl, unfolded same] la ins rec
      have ih: "(j + 1 < length (query_subtrees s) \<longrightarrow> length (query_subtrees s) \<le> length (assigned_work s))
         \<and> (\<forall>k < length (assigned_work s).
              assigned_work s' ! k =
                (if j + 1 \<le> k \<and> k < length (query_subtrees s) then snd (Insert iv (assigned_work s ! k))
                 else assigned_work s ! k))
         \<and> (\<forall>k < length (tasks s).
              length (tasks s' ! k) =
                (if j + 1 \<le> k \<and> k < length (query_subtrees s) \<and> \<not> covered iv (assigned_work s ! k)
                 then Suc (length (tasks s ! k)) else length (tasks s ! k)))
         \<and> locks_in c (table_exchange s') - locks_in c (table_exchange s)
             = int (tasks_of_cache c s') - int (tasks_of_cache c s)"
        by simp
      have a: "length (query_subtrees s) \<le> length (assigned_work s)"
        using ih lt la by (cases "j + 1 < length (query_subtrees s)") auto
      have b: "assigned_work s' ! k =
            (if j \<le> k \<and> k < length (query_subtrees s) then snd (Insert iv (assigned_work s ! k))
             else assigned_work s ! k)" if "k < length (assigned_work s)" for k
        using ih that ins by (cases "k = j") auto
      have c: "length (tasks s' ! k) =
            (if j \<le> k \<and> k < length (query_subtrees s) \<and> \<not> covered iv (assigned_work s ! k)
             then Suc (length (tasks s ! k)) else length (tasks s ! k))" if "k < length (tasks s)" for k
        using ih that cov by (cases "k = j") auto
      from a b c ih show ?thesis by simp
    next
      case unc: False
      let ?s1 = "s\<lparr> assigned_work := (assigned_work s)[j := assigned_work s ! j @ [iv]] \<rparr>"
      from unc have ins: "Insert iv (assigned_work s ! j) = (True, assigned_work s ! j @ [iv])"
        by (simp add: Insert_def)
      from "1.prems" lt la unc obtain s2 where
        push: "PushTask e (int j) pr ?s1 = Inr s2"
        and rec: "GenerateTasks_inner e pr iv (j + 1)
           (s2\<lparr> table_exchange := table_exchange s2 @ [LockCache (snd (snd pr)) 1] \<rparr>) = Inr s'"
        by (auto simp: GenerateTasks_inner_uncovered split: sum.splits)
      let ?s3 = "s2\<lparr> table_exchange := table_exchange s2 @ [LockCache (snd (snd pr)) 1] \<rparr>"
      from push have s2: "s2 = ?s1\<lparr> tasks := (tasks s)[j := heap_push (make_task e (query_subtrees s ! j) pr)
                                              (tasks s ! j)],
                num_remaining_tasks := num_remaining_tasks s + 1 \<rparr>"
        and jt: "j < length (tasks s)"
        by (auto simp: PushTask_Inr in_range_def)
      have push': "PushTask e (int j) pr
          (s\<lparr> assigned_work := (assigned_work s)[j := snd (Insert iv (assigned_work s ! j))] \<rparr>) = Inr s2"
        using push by (simp add: ins)
      from "1.IH"(1) [OF lt _ refl refl _ push' rec] la ins
      have ih: "(j + 1 < length (query_subtrees ?s3) \<longrightarrow> length (query_subtrees ?s3) \<le> length (assigned_work ?s3))
         \<and> (\<forall>k < length (assigned_work ?s3).
              assigned_work s' ! k =
                (if j + 1 \<le> k \<and> k < length (query_subtrees ?s3) then snd (Insert iv (assigned_work ?s3 ! k))
                 else assigned_work ?s3 ! k))
         \<and> (\<forall>k < length (tasks ?s3).
              length (tasks s' ! k) =
                (if j + 1 \<le> k \<and> k < length (query_subtrees ?s3) \<and> \<not> covered iv (assigned_work ?s3 ! k)
                 then Suc (length (tasks ?s3 ! k)) else length (tasks ?s3 ! k)))
         \<and> locks_in c (table_exchange s') - locks_in c (table_exchange ?s3)
             = int (tasks_of_cache c s') - int (tasks_of_cache c ?s3)"
        by simp
      have f3: "query_subtrees ?s3 = query_subtrees s"
        "assigned_work ?s3 = (assigned_work s)[j := assigned_work s ! j @ [iv]]"
        "tasks ?s3 = (tasks s)[j := heap_push (make_task e (query_subtrees s ! j) pr) (tasks s ! j)]"
        "table_exchange ?s3 = table_exchange s @ [LockCache (snd (snd pr)) 1]"
        by (simp_all add: s2)
      have a: "length (query_subtrees s) \<le> length (assigned_work s)"
        using ih lt la by (cases "j + 1 < length (query_subtrees s)") (auto simp: f3)
      have b: "assigned_work s' ! k =
            (if j \<le> k \<and> k < length (query_subtrees s) then snd (Insert iv (assigned_work s ! k))
             else assigned_work s ! k)" if "k < length (assigned_work s)" for k
        using ih that ins lt by (cases "k = j") (auto simp: f3)
      have c: "length (tasks s' ! k) =
            (if j \<le> k \<and> k < length (query_subtrees s) \<and> \<not> covered iv (assigned_work s ! k)
             then Suc (length (tasks s ! k)) else length (tasks s ! k))" if "k < length (tasks s)" for k
        using ih that unc lt by (cases "k = j") (auto simp: f3)
      have t3: "int (tasks_of_cache c ?s3)
          = int (tasks_of_cache c s) + (if cache_id (make_task e (query_subtrees s ! j) pr) = c then 1 else 0)"
        using jt by (simp add: tasks_of_cache_def f3 tasks_of_cache_update)
      have cid: "cache_id (make_task e (query_subtrees s ! j) pr) = snd (snd pr)"
        by (simp add: make_task_def)
      have d: "locks_in c (table_exchange s') - locks_in c (table_exchange s)
         = int (tasks_of_cache c s') - int (tasks_of_cache c s)"
        using ih t3 cid by (simp add: f3)
      from a b c d show ?thesis by simp
    qed
  qed
qed

lemma GenerateTasks_inner_noop:
  "covered_everywhere iv s \<Longrightarrow> GenerateTasks_inner e pr iv j s = Inr s"
proof (induction "length (query_subtrees s) - j" arbitrary: j)
  case 0
  then show ?case by (simp add: GenerateTasks_inner_end)
next
  case (Suc n)
  then have lt: "j < length (query_subtrees s)" by simp
  with Suc.prems have "j < length (assigned_work s)" "covered iv (assigned_work s ! j)"
    by (simp_all add: covered_everywhere_def)
  with lt have "GenerateTasks_inner e pr iv j s = GenerateTasks_inner e pr iv (j + 1) s"
    by (rule GenerateTasks_inner_covered)
  also have "\<dots> = Inr s"
    using Suc by (intro Suc.hyps(1)) auto
  finally show ?case .
qed

lemma GenerateTasks_noop:
  "\<forall>d \<in> set ds. covered_everywhere (reference_interval e d) s \<Longrightarrow> GenerateTasks e ds s = Inr s"
  by (induction ds) (simp_all add: GenerateTasks_one_eq GenerateTasks_inner_noop)

lemma GenerateTasks_one_covers:
  assumes "GenerateTasks_one e d s = Inr s1"
  shows "covered_everywhere (reference_interval e d) s1"
    and "covered_everywhere x s \<Longrightarrow> covered_everywhere x s1"
proof -
  from assms have inner: "GenerateTasks_inner e (reference_pair e d) (reference_interval e d) 0 s = Inr s1"
    by (simp add: GenerateTasks_one_eq)
  note fr = GenerateTasks_inner_frame_of [OF inner]
  note ef = GenerateTasks_inner_effect [OF inner, of 0]
  have len: "k < length (assigned_work s)" if "k < length (query_subtrees s)" for k
    using ef that by auto
  have aw: "assigned_work s1 ! k = snd (Insert (reference_interval e d) (assigned_work s ! k))"
    if "k < length (query_subtrees s)" for k
    using ef that len [OF that] by simp
  show "covered_everywhere (reference_interval e d) s1"
    using fr aw len by (simp add: covered_everywhere_def covered_Insert)
  show "covered_everywhere x s1" if "covered_everywhere x s"
    using that fr aw by (simp add: covered_everywhere_def covered_Insert_mono)
qed

lemma GenerateTasks_covers:
  "GenerateTasks e ds s = Inr s1 \<Longrightarrow>
     (\<forall>d \<in> set ds. covered_everywhere (reference_interval e d) s1)
     \<and> (\<forall>x. covered_everywhere x s \<longrightarrow> covered_everywhere x s1)"
proof (induction ds arbitrary: s)
  case Nil
  then show ?case by simp
next
  case (Cons d ds)
  then obtain s' where one: "GenerateTasks_one e d s = Inr s'" and rest: "GenerateTasks e ds s' = Inr s1"
    by (auto split: sum.splits)
  from Cons.IH [OF rest] have ih: "\<forall>d \<in> set ds. covered_everywhere (reference_interval e d) s1"
    "\<And>x. covered_everywhere x s' \<Longrightarrow> covered_everywhere x s1"
    by blast+
  have "covered_everywhere (reference_interval e d) s1"
    by (rule ih(2)) (rule GenerateTasks_one_covers(1) [OF one])
  moreover have "covered_everywhere x s1" if "covered_everywhere x s" for x
    by (rule ih(2)) (rule GenerateTasks_one_covers(2) [OF one that])
  ultimately show ?case
    using ih(1) by simp
qed

lemma GenerateTasks_locks:
  "GenerateTasks e ds s = Inr s1 \<Longrightarrow>
     locks_in c (table_exchange s1) - locks_in c (table_exchange s)
       = int (tasks_of_cache c s1) - int (tasks_of_cache c s)"
proof (induction ds arbitrary: s)
  case Nil
  then show ?case by simp
next
  case (Cons d ds)
  then obtain s' where one: "GenerateTasks_one e d s = Inr s'" and rest: "GenerateTasks e ds s' = Inr s1"
    by (auto split: sum.splits)
  from one have "locks_in c (table_exchange s') - locks_in c (table_exchange s)
       = int (tasks_of_cache c s') - int (tasks_of_cache c s)"
    using GenerateTasks_inner_effect [of e _ _ 0 s s' c] by (simp add: GenerateTasks_one_eq)
  with Cons.IH [OF rest] show ?case by simp
qed

lemma finite_fresh_intervals [simp]: "finite (fresh_intervals e ds w)"
  by (simp add: fresh_intervals_def)

lemma GenerateTasks_no_duplicates:
  "GenerateTasks e ds s = Inr s1 \<Longrightarrow> k < length (query_subtrees s) \<Longrightarrow> k < length (tasks s) \<Longrightarrow>
     length (tasks s1 ! k) \<le> length (tasks s ! k) + card (fresh_intervals e ds (assigned_work s ! k))"
proof (induction ds arbitrary: s)
  case Nil
  then show ?case by simp
next
  case (Cons d ds)
  then obtain s' where one: "GenerateTasks_one e d s = Inr s'" and rest: "GenerateTasks e ds s' = Inr s1"
    by (auto split: sum.splits)
  let ?iv = "reference_interval e d"
  let ?w = "assigned_work s ! k"
  let ?w' = "assigned_work s' ! k"
  from one have inner: "GenerateTasks_inner e (reference_pair e d) ?iv 0 s = Inr s'"
    by (simp add: GenerateTasks_one_eq)
  note fr = GenerateTasks_inner_frame_of [OF inner]
  note ef = GenerateTasks_inner_effect [OF inner, of 0]
  from ef Cons.prems(2) have ka: "k < length (assigned_work s)" by auto
  from ef ka Cons.prems(2) have w': "?w' = snd (Insert ?iv ?w)" by simp
  from ef Cons.prems(2,3) have len: "length (tasks s' ! k) =
      (if \<not> covered ?iv ?w then Suc (length (tasks s ! k)) else length (tasks s ! k))"
    by simp
  from Cons.IH [OF rest] fr Cons.prems(2,3)
  have ih: "length (tasks s1 ! k) \<le> length (tasks s' ! k) + card (fresh_intervals e ds ?w')"
    by simp
  have sub: "fresh_intervals e ds ?w' \<subseteq> fresh_intervals e (d # ds) ?w"
    unfolding w' using covered_Insert_mono [of _ ?w ?iv]
    by (auto simp: fresh_intervals_def)
  show ?case
  proof (cases "covered ?iv ?w")
    case True
    from sub have "card (fresh_intervals e ds ?w') \<le> card (fresh_intervals e (d # ds) ?w)"
      by (intro card_mono) simp_all
    with ih len True show ?thesis by simp
  next
    case False
    have notin: "?iv \<notin> fresh_intervals e ds ?w'"
      unfolding w' by (simp add: fresh_intervals_def covered_Insert)
    have "?iv \<in> fresh_intervals e (d # ds) ?w"
      using False by (simp add: fresh_intervals_def)
    with sub have "insert ?iv (fresh_intervals e ds ?w') \<subseteq> fresh_intervals e (d # ds) ?w"
      by simp
    then have "card (insert ?iv (fresh_intervals e ds ?w')) \<le> card (fresh_intervals e (d # ds) ?w)"
      by (intro card_mono) simp_all
    with notin have "Suc (card (fresh_intervals e ds ?w')) \<le> card (fresh_intervals e (d # ds) ?w)"
      by simp
    with ih len False show ?thesis by simp
  qed
qed

lemma GenerateTasks_inner_returns:
  "aligned s \<Longrightarrow> \<forall>node \<in> set (query_subtrees s). node \<noteq> NULL \<Longrightarrow> fst (snd pr) \<noteq> NULL \<Longrightarrow>
   \<exists>s'. GenerateTasks_inner e pr iv j s = Inr s'"
proof (induction e pr iv j s rule: GenerateTasks_inner.induct)
  case (1 e pr iv j s)
  show ?case
  proof (cases "j < length (query_subtrees s)")
    case False
    then show ?thesis by (simp add: GenerateTasks_inner_end)
  next
    case lt: True
    with "1.prems" have la: "j < length (assigned_work s)" and lt': "j < length (tasks s)"
      and nn: "query_subtrees s ! j \<noteq> NULL"
      by (auto simp: aligned_def)
    show ?thesis
    proof (cases "covered iv (assigned_work s ! j)")
      case True
      then have ins: "Insert iv (assigned_work s ! j) = (False, assigned_work s ! j)"
        by (rule Insert_covered)
      have same: "s\<lparr> assigned_work := (assigned_work s)[j := snd (Insert iv (assigned_work s ! j))] \<rparr> = s"
        by (simp add: ins)
      from "1.IH"(2) [OF lt _ refl refl, unfolded same] la ins "1.prems"
      have "\<exists>s'. GenerateTasks_inner e pr iv (j + 1) s = Inr s'" by simp
      with lt la True show ?thesis by (simp add: GenerateTasks_inner_covered)
    next
      case False
      let ?s1 = "s\<lparr> assigned_work := (assigned_work s)[j := assigned_work s ! j @ [iv]] \<rparr>"
      from False have ins: "Insert iv (assigned_work s ! j) = (True, assigned_work s ! j @ [iv])"
        by (simp add: Insert_def)
      let ?s2 = "?s1\<lparr> tasks := (tasks ?s1)[nat (int j) := heap_push (make_task e (query_subtrees ?s1 ! nat (int j)) pr)
                                              (tasks ?s1 ! nat (int j))],
             num_remaining_tasks := num_remaining_tasks ?s1 + 1 \<rparr>"
      have push: "PushTask e (int j) pr ?s1 = Inr ?s2"
        using lt lt' nn "1.prems"(3) by (intro PushTask_ok) (auto simp: in_range_def)
      have push': "PushTask e (int j) pr
          (s\<lparr> assigned_work := (assigned_work s)[j := snd (Insert iv (assigned_work s ! j))] \<rparr>) = Inr ?s2"
        using push by (simp add: ins)
      let ?s3 = "?s2\<lparr> table_exchange := table_exchange ?s2 @ [LockCache (snd (snd pr)) 1] \<rparr>"
      have "aligned ?s3" "\<forall>node \<in> set (query_subtrees ?s3). node \<noteq> NULL"
        using "1.prems" by (simp_all add: aligned_def)
      with "1.IH"(1) [OF lt _ refl refl _ push'] la ins "1.prems"(3)
      have "\<exists>s'. GenerateTasks_inner e pr iv (j + 1) ?s3 = Inr s'" by simp
      with lt la False push show ?thesis
        by (simp add: GenerateTasks_inner_uncovered)
    qed
  qed
qed

lemma GenerateTasks_returns:
  "aligned s \<Longrightarrow> \<forall>node \<in> set (query_subtrees s). node \<noteq> NULL \<Longrightarrow>
   \<forall>d \<in> set ds. fst (snd (reference_pair e d)) \<noteq> NULL \<Longrightarrow>
   \<exists>s1. GenerateTasks e ds s = Inr s1"
proof (induction ds arbitrary: s)
  case Nil
  then show ?case by simp
next
  case (Cons d ds)
  from GenerateTasks_inner_returns [OF Cons.prems(1,2), of "reference_pair e d" e "reference_interval e d" 0]
    Cons.prems(3)
  obtain s' where one: "GenerateTasks_one e d s = Inr s'"
    by (auto simp: GenerateTasks_one_eq)
  then have inner: "GenerateTasks_inner e (reference_pair e d) (reference_interval e d) 0 s = Inr s'"
    by (simp add: GenerateTasks_one_eq)
  from GenerateTasks_inner_frame_of [OF inner] Cons.prems(1,2)
  have "aligned s'" "\<forall>node \<in> set (query_subtrees s'). node \<noteq> NULL"
    by (simp_all add: aligned_def)
  from Cons.IH [OF this] Cons.prems(3) one show ?case by simp
qed

lemma GenerateTasks_inner_null:
  assumes "fst (snd pr) = NULL"
    and "length (query_subtrees s) \<le> length (assigned_work s)"
  shows "j \<le> k \<Longrightarrow> k < length (query_subtrees s) \<Longrightarrow> \<not> covered iv (assigned_work s ! k) \<Longrightarrow>
     GenerateTasks_inner e pr iv j s = Inl NullPointer"
proof (induction "k - j" arbitrary: j)
  case 0
  then have jk: "j = k" by simp
  with 0 assms have "j < length (query_subtrees s)" "j < length (assigned_work s)"
    "\<not> covered iv (assigned_work s ! j)"
    by auto
  then show ?case
    using assms(1) by (simp add: GenerateTasks_inner_uncovered PushTask_def in_range_def)
next
  case (Suc n)
  then have lt: "j < length (query_subtrees s)" and la: "j < length (assigned_work s)"
    using assms(2) by auto
  show ?case
  proof (cases "covered iv (assigned_work s ! j)")
    case True
    with lt la have "GenerateTasks_inner e pr iv j s = GenerateTasks_inner e pr iv (j + 1) s"
      by (rule GenerateTasks_inner_covered)
    also have "\<dots> = Inl NullPointer"
      using Suc by (intro Suc.hyps(1)) auto
    finally show ?thesis .
  next
    case False
    with lt la show ?thesis
      using assms(1) by (simp add: GenerateTasks_inner_uncovered PushTask_def in_range_def)
  qed
qed

lemma demo_init_eq:
  "demo_init =
     \<lparr> query_subtrees = [1, 2], assigned_work = [[], []],
       remaining_work_for_query_subtrees = [200, 200],
       query_subtree_locks = [False, False], tasks = [[], []],
       split_subtree_after_unlocking = False, table_exchange = [ExchangeInit],
       num_remaining_tasks = 0, remaining_global_computation = 40000,
       remaining_local_computation = 20000 \<rparr>"
  by (simp add: demo_init_def Init_def constructor_def demo_env_def Let_def demo_total_entries)

lemma demo_init_generate:
  "GenerateTasks demo_env [(0, 0, 100, 5), (1, 0, 50, 7)] demo_init = Inr demo_loaded"
  using demo_generate by (simp add: demo_init_def)

text \<open>
  C3.  When \<^verbatim>\<open>GenerateTasks\<close> returns for a list of received descriptors, a second call
  with the same list returns the same task queue: no heap, counter or assigned work
  changes and the exchange sees no further call.  For every cache id, the number of locks
  the call has taken is the number of tasks of that cache id it has added to the heaps.
  The heap of a live query subtree grows by at most one task for each distinct interval
  (rank, begin, begin + count) of the list that its assigned work did not cover before,
  and afterwards the assigned work of every live subtree covers every interval of the
  list.  The call returns when the vectors are aligned and neither a query subtree nor
  the reference node of a descriptor is null.
\<close>

theorem generate_tasks_idempotent:
  "(\<forall>s1. GenerateTasks e ds s = Inr s1 \<longrightarrow>
       GenerateTasks e ds s1 = Inr s1
     \<and> (\<forall>c. locks_in c (table_exchange s1) - locks_in c (table_exchange s)
              = int (tasks_of_cache c s1) - int (tasks_of_cache c s))
     \<and> (\<forall>k. k < length (query_subtrees s) \<and> k < length (tasks s) \<longrightarrow>
            length (tasks s1 ! k)
              \<le> length (tasks s ! k) + card (fresh_intervals e ds (assigned_work s ! k)))
     \<and> (\<forall>d \<in> set ds. covered_everywhere (reference_interval e d) s1))
   \<and> (aligned s \<and> (\<forall>node \<in> set (query_subtrees s). node \<noteq> NULL)
       \<and> (\<forall>d \<in> set ds. fst (snd (reference_pair e d)) \<noteq> NULL) \<longrightarrow>
       (\<exists>s1. GenerateTasks e ds s = Inr s1))"
proof (intro conjI allI impI ballI)
  fix s1 assume g: "GenerateTasks e ds s = Inr s1"
  from GenerateTasks_covers [OF g] show "GenerateTasks e ds s1 = Inr s1"
    by (intro GenerateTasks_noop) blast
  show "locks_in c (table_exchange s1) - locks_in c (table_exchange s)
              = int (tasks_of_cache c s1) - int (tasks_of_cache c s)" for c
    using g by (rule GenerateTasks_locks)
  show "length (tasks s1 ! k)
              \<le> length (tasks s ! k) + card (fresh_intervals e ds (assigned_work s ! k))"
    if "k < length (query_subtrees s) \<and> k < length (tasks s)" for k
    using GenerateTasks_no_duplicates [OF g] that by blast
  show "covered_everywhere (reference_interval e d) s1" if "d \<in> set ds" for d
    using GenerateTasks_covers [OF g] that by blast
next
  assume "aligned s \<and> (\<forall>node \<in> set (query_subtrees s). node \<noteq> NULL)
       \<and> (\<forall>d \<in> set ds. fst (snd (reference_pair e d)) \<noteq> NULL)"
  then show "\<exists>s1. GenerateTasks e ds s = Inr s1"
    using GenerateTasks_returns by blast
qed

theorem generate_tasks_idempotent_witness:
  "GenerateTasks demo_env [(0, 0, 100, 5), (1, 0, 50, 7)] demo_init = Inr demo_loaded
   \<and> GenerateTasks demo_env [(0, 0, 100, 5), (1, 0, 50, 7)] demo_loaded = Inr demo_loaded
   \<and> locks_in 5 (table_exchange demo_init) = 0 \<and> tasks_of_cache 5 demo_init = 0
   \<and> locks_in 5 (table_exchange demo_loaded) = 2 \<and> tasks_of_cache 5 demo_loaded = 2
   \<and> covered_everywhere (reference_interval demo_env (1, 0, 50, 7)) demo_loaded"
proof -
  note g = generate_tasks_idempotent [where e = demo_env and ds = "[(0, 0, 100, 5), (1, 0, 50, 7)]"
      and s = demo_init, THEN conjunct1, rule_format, OF demo_init_generate]
  from g have twice: "GenerateTasks demo_env [(0, 0, 100, 5), (1, 0, 50, 7)] demo_loaded = Inr demo_loaded"
    by blast
  from g have "locks_in 5 (table_exchange demo_loaded) - locks_in 5 (table_exchange demo_init)
              = int (tasks_of_cache 5 demo_loaded) - int (tasks_of_cache 5 demo_init)"
    by blast
  moreover have "locks_in 5 (table_exchange demo_init) = 0" "tasks_of_cache 5 demo_init = 0"
    "tasks_of_cache 5 demo_loaded = 2"
    by (simp_all add: demo_init_eq tasks_of_cache_def demo_loaded_def make_task_def)
  ultimately have l: "locks_in 5 (table_exchange demo_init) = 0" "tasks_of_cache 5 demo_init = 0"
    "locks_in 5 (table_exchange demo_loaded) = 2" "tasks_of_cache 5 demo_loaded = 2"
    by simp_all
  from g have "covered_everywhere (reference_interval demo_env (1, 0, 50, 7)) demo_loaded"
    by simp
  with demo_init_generate twice l show ?thesis by blast
qed

text \<open>
  C8, as the code has it.  For a descriptor whose cache id \<^verbatim>\<open>FindSubTable\<close> does not find
  and for which \<^verbatim>\<open>FindByBeginCount\<close> returns the null node, \<^verbatim>\<open>GenerateTasks\<close> takes the
  local table and the null node.  When the assigned work of every live query subtree
  already covers the interval of the descriptor, the descriptor has no effect and the
  call goes on with the rest of the list.  Otherwise (the assigned work being as long as
  the vector of subtrees) the first subtree whose assigned work accepts the interval makes
  \<^verbatim>\<open>PushTask_\<close> follow the null node: the call faults and the rest of the list is not
  processed.
\<close>

theorem generate_tasks_unresolved_node:
  assumes "FindSubTable e (snd (snd (snd d))) = None"
    and "FindByBeginCount e (fst (snd d)) (fst (snd (snd d))) = NULL"
  shows "reference_pair e d = (local_table e, NULL, snd (snd (snd d)))
     \<and> reference_interval e d
         = (table_rank e (local_table e), fst (snd d), fst (snd d) + fst (snd (snd d)))
     \<and> (covered_everywhere (reference_interval e d) s \<longrightarrow>
          GenerateTasks e (d # ds) s = GenerateTasks e ds s)
     \<and> (length (query_subtrees s) \<le> length (assigned_work s)
          \<and> \<not> covered_everywhere (reference_interval e d) s \<longrightarrow>
          GenerateTasks e (d # ds) s = Inl NullPointer)"
proof (intro conjI impI)
  show pr: "reference_pair e d = (local_table e, NULL, snd (snd (snd d)))"
    using assms by (simp add: reference_pair_def)
  then show "reference_interval e d
         = (table_rank e (local_table e), fst (snd d), fst (snd d) + fst (snd (snd d)))"
    by (simp add: reference_interval_def)
  show "GenerateTasks e (d # ds) s = GenerateTasks e ds s"
    if "covered_everywhere (reference_interval e d) s"
    using that by (simp add: GenerateTasks_one_eq GenerateTasks_inner_noop)
  assume a: "length (query_subtrees s) \<le> length (assigned_work s)
          \<and> \<not> covered_everywhere (reference_interval e d) s"
  then obtain k where k: "k < length (query_subtrees s)"
    "\<not> covered (reference_interval e d) (assigned_work s ! k)"
    by (auto simp: covered_everywhere_def)
  have "fst (snd (reference_pair e d)) = NULL"
    by (simp add: pr)
  from GenerateTasks_inner_null [OF this, of s 0 k "reference_interval e d" e] a k
  have "GenerateTasks_one e d s = Inl NullPointer"
    by (simp add: GenerateTasks_one_eq)
  then show "GenerateTasks e (d # ds) s = Inl NullPointer"
    by simp
qed

theorem generate_tasks_unresolved_node_witness:
  "FindSubTable demo_env 11 = None \<and> FindByBeginCount demo_env 20 30 = NULL
   \<and> covered_everywhere (reference_interval demo_env (0, 20, 30, 11)) demo_loaded
   \<and> GenerateTasks demo_env [(0, 20, 30, 11), (1, 0, 50, 7)] demo_loaded = Inr demo_loaded
   \<and> FindByBeginCount demo_env 0 50 = NULL
   \<and> length (query_subtrees demo_init) \<le> length (assigned_work demo_init)
   \<and> \<not> covered_everywhere (reference_interval demo_env (3, 0, 50, 11)) demo_init
   \<and> GenerateTasks demo_env [(3, 0, 50, 11), (1, 0, 50, 7)] demo_init = Inl NullPointer"
proof -
  have f: "FindSubTable demo_env (snd (snd (snd (0, 20, 30, 11)))) = None"
    "FindByBeginCount demo_env (fst (snd (0, 20, 30, (11::int)))) (fst (snd (snd (0::int, 20, 30, 11::int)))) = NULL"
    "FindSubTable demo_env (snd (snd (snd (3, 0, 50, 11)))) = None"
    "FindByBeginCount demo_env (fst (snd (3, 0, 50, (11::int)))) (fst (snd (snd (3::int, 0, 50, 11::int)))) = NULL"
    by (simp_all add: demo_env_def)
  have cov: "covered_everywhere (reference_interval demo_env (0, 20, 30, 11)) demo_loaded"
    by (simp add: covered_everywhere_def covered_def reference_interval_def reference_pair_def
        demo_env_def demo_loaded_def less_Suc_eq numeral_2_eq_2)
  have "\<not> covered x (assigned_work demo_init ! 0)" for x
    by (simp add: covered_def demo_init_eq)
  moreover have "0 < length (query_subtrees demo_init)"
    by (simp add: demo_init_eq)
  ultimately have "\<not> covered_everywhere (reference_interval demo_env (3, 0, 50, 11)) demo_init"
    unfolding covered_everywhere_def by blast
  moreover have "length (query_subtrees demo_init) \<le> length (assigned_work demo_init)"
    by (simp add: demo_init_eq)
  ultimately have unc: "length (query_subtrees demo_init) \<le> length (assigned_work demo_init)"
    "\<not> covered_everywhere (reference_interval demo_env (3, 0, 50, 11)) demo_init"
    by simp_all
  have rest: "GenerateTasks demo_env [(1, 0, 50, 7)] demo_loaded = Inr demo_loaded"
    by (simp add: GenerateTasks_one_def GenerateTasks_inner.simps demo_env_def demo_loaded_def
        Let_def Insert_def covered_def)
  from generate_tasks_unresolved_node [OF f(1,2), of demo_loaded "[(1, 0, 50, 7)]"] cov rest
  have a: "GenerateTasks demo_env [(0, 20, 30, 11), (1, 0, 50, 7)] demo_loaded = Inr demo_loaded"
    by simp
  from generate_tasks_unresolved_node [OF f(3,4), of demo_init "[(1, 0, 50, 7)]"] unc
  have b: "GenerateTasks demo_env [(3, 0, 50, 11), (1, 0, 50, 7)] demo_init = Inl NullPointer"
    by simp
  from f cov unc a b show ?thesis by simp
qed

text \<open>
  The claim C8 as the spec states it fails: after \<^verbatim>\<open>Init\<close>, a list whose first
  descriptor resolves to no node makes the call fault, although its second descriptor
  alone would give each of the two subtrees a task.
\<close>

theorem generate_tasks_does_not_skip_counterexample:
  "FindSubTable demo_env 11 = None \<and> FindByBeginCount demo_env 0 50 = NULL
   \<and> GenerateTasks demo_env [(3, 0, 50, 11), (1, 0, 50, 7)] demo_init = Inl NullPointer
   \<and> GenerateTasks demo_env [(1, 0, 50, 7)] demo_init =
       Inr (demo_init\<lparr>
         assigned_work := [[(1, 0, 50)], [(1, 0, 50)]],
         tasks := [[make_task demo_env 1 (71, 72, 7)], [make_task demo_env 2 (71, 72, 7)]],
         table_exchange := [ExchangeInit, LockCache 7 1, LockCache 7 1],
         num_remaining_tasks := 2 \<rparr>)"
  by (simp add: GenerateTasks_one_def GenerateTasks_inner.simps demo_env_def demo_init_eq
      Let_def Insert_def covered_def PushTask_def in_range_def make_task_def)

end
